theory Spec2Isabelle
  imports Complex_Main "HOL-Library.Word"
begin

unbundle bit_operations_syntax

section \<open>Python values\<close>

text \<open>
  Python floats are modelled as exact reals: rounding is left out, every comparison and
  every branch of the source is kept. Python integers are unbounded and modelled as
  \<^typ>\<open>int\<close>. An exception of the source is a value \<open>Inl e\<close> of a sum type.
\<close>

datatype py_error = ZeroDivisionError | IndexError | ValueError

text \<open>\<^verbatim>\<open>xs[i]\<close>: a negative index counts from the end, an index out of range raises.\<close>

definition py_index :: "'a list \<Rightarrow> int \<Rightarrow> py_error + 'a" where
  "py_index xs i =
     (if 0 \<le> i \<and> i < int (length xs) then Inr (xs ! nat i)
      else if i < 0 \<and> - int (length xs) \<le> i then Inr (xs ! nat (int (length xs) + i))
      else Inl IndexError)"

text \<open>
  \<^verbatim>\<open>xs[i:]\<close> for an index that is not negative, and \<^verbatim>\<open>xs[i:j]\<close>: a negative bound
  counts from the end, and both bounds are clipped to the list.
\<close>

definition py_slice_from :: "'a list \<Rightarrow> nat \<Rightarrow> 'a list" where
  "py_slice_from xs i = drop i xs"

definition py_bound :: "nat \<Rightarrow> int \<Rightarrow> nat" where
  "py_bound n i = (if i < 0 then nat (max (int n + i) 0) else min (nat i) n)"

definition py_slice :: "'a list \<Rightarrow> int \<Rightarrow> int \<Rightarrow> 'a list" where
  "py_slice xs i j =
     take (py_bound (length xs) j - py_bound (length xs) i) (drop (py_bound (length xs) i) xs)"

text \<open>\<^verbatim>\<open>bin(x)\<close>: the binary digits of \<open>|x|\<close> after the prefix \<^verbatim>\<open>0b\<close>, with a sign.\<close>

function bin_digits :: "int \<Rightarrow> string" where
  "bin_digits n =
     (if n < 2 then [if n = 0 then CHR ''0'' else CHR ''1'']
      else bin_digits (n div 2) @ [if n mod 2 = 0 then CHR ''0'' else CHR ''1''])"
  by pat_completeness auto
termination
  by (relation "measure nat") auto

declare bin_digits.simps [simp del]

definition bin :: "int \<Rightarrow> string" where
  "bin x = (if x < 0 then ''-'' else '''') @ ''0b'' @ bin_digits \<bar>x\<bar>"

section \<open>Similarity of bit-packed fingerprints (verification.py)\<close>

text \<open>
  A fingerprint dict. The keys \<^verbatim>\<open>fingerprint\<close> and \<^verbatim>\<open>hash\<close> are read with
  \<^verbatim>\<open>.get(key, default)\<close>: a missing key is the default value, \<open>[]\<close> or \<open>''''\<close>.
\<close>

record fp =
  fingerprint :: "int list"
  hash :: string
  timestamp :: real

text \<open>
  The loop over \<^verbatim>\<open>range(min_len)\<close> of \<^verbatim>\<open>calculate_similarity\<close>; the state is
  \<open>(total_bits, different_bits)\<close>.
\<close>

function count_bits :: "int list \<Rightarrow> int list \<Rightarrow> nat \<Rightarrow> nat \<Rightarrow> nat \<times> nat \<Rightarrow> nat \<times> nat" where
  "count_bits arr1 arr2 i min_len (total_bits, different_bits) =
     (if i < min_len then
        (let xor_result = (arr1 ! i) XOR (arr2 ! i)
         in count_bits arr1 arr2 (Suc i) min_len
              (total_bits + 32, different_bits + count_list (bin xor_result) CHR ''1''))
      else (total_bits, different_bits))"
  by pat_completeness auto
termination
  by (relation "measure (\<lambda>(arr1, arr2, i, min_len, acc). min_len - i)") auto

declare count_bits.simps [simp del]

definition calculate_similarity :: "fp \<Rightarrow> fp \<Rightarrow> py_error + real" where
  "calculate_similarity fp1 fp2 =
     (let arr1 = fingerprint fp1; arr2 = fingerprint fp2 in
      if arr1 = [] \<or> arr2 = [] then
        (let hash1 = hash fp1; hash2 = hash fp2 in
         if length hash1 \<noteq> length hash2 then Inr 0
         else
           (let differences = length (filter (\<lambda>(c1, c2). c1 \<noteq> c2) (zip hash1 hash2)) in
            if length hash1 = 0 then Inl ZeroDivisionError
            else Inr (1 - real differences / real (length hash1))))
      else
        (let min_len = min (length arr1) (length arr2) in
         if min_len = 0 then Inr 0
         else
           (let (total_bits, different_bits) = count_bits arr1 arr2 0 min_len (0, 0) in
            if total_bits = 0 then Inr 0
            else Inr (1 - real different_bits / real total_bits))))"


section \<open>Matching a clip against the database (verification.py)\<close>

record Match =
  video_id :: string
  video_title :: string
  clip_timestamp :: real
  original_timestamp :: real
  confidence :: real
  fingerprint_matches :: nat

text \<open>A database entry; its key \<^verbatim>\<open>id\<close> is the field \<open>id_key\<close>.\<close>

record video =
  id_key :: string
  title :: string
  fingerprints :: "fp list"

text \<open>
  The search of one clip fingerprint in a video, over \<^verbatim>\<open>enumerate(video_fps)\<close>; the state
  is \<open>(best_match_similarity, best_match_idx)\<close> and starts at \<open>(0.0, -1)\<close>.
\<close>

fun best_match_search :: "fp \<Rightarrow> (nat \<times> fp) list \<Rightarrow> real \<times> int \<Rightarrow> py_error + real \<times> int" where
  "best_match_search clip_fp [] best = Inr best"
| "best_match_search clip_fp ((video_idx, video_fp) # rest) (best_match_similarity, best_match_idx) =
     (case calculate_similarity clip_fp video_fp of
        Inl e \<Rightarrow> Inl e
      | Inr similarity \<Rightarrow>
          if similarity > best_match_similarity
          then best_match_search clip_fp rest (similarity, int video_idx)
          else best_match_search clip_fp rest (best_match_similarity, best_match_idx))"

text \<open>
  The check of the following fingerprints, over the offsets of
  \<^verbatim>\<open>range(1, min(len(clip_fingerprints) - clip_idx, len(video_fps) - best_match_idx))\<close>;
  the state is \<open>(consecutive_matches, total_similarity)\<close> and the loop breaks at the first
  similarity below the threshold.
\<close>

fun check_following ::
  "fp list \<Rightarrow> fp list \<Rightarrow> real \<Rightarrow> nat \<Rightarrow> int \<Rightarrow> nat list \<Rightarrow> nat \<times> real \<Rightarrow> py_error + nat \<times> real" where
  "check_following clip_fingerprints video_fps threshold clip_idx best_match_idx [] acc = Inr acc"
| "check_following clip_fingerprints video_fps threshold clip_idx best_match_idx (offset # offsets)
       (consecutive_matches, total_similarity) =
     (case py_index clip_fingerprints (int clip_idx + int offset) of
        Inl e \<Rightarrow> Inl e
      | Inr next_clip_fp \<Rightarrow>
         (case py_index video_fps (best_match_idx + int offset) of
            Inl e \<Rightarrow> Inl e
          | Inr next_video_fp \<Rightarrow>
             (case calculate_similarity next_clip_fp next_video_fp of
                Inl e \<Rightarrow> Inl e
              | Inr similarity \<Rightarrow>
                  if similarity \<ge> threshold
                  then check_following clip_fingerprints video_fps threshold clip_idx best_match_idx
                         offsets (consecutive_matches + 1, total_similarity + similarity)
                  else Inr (consecutive_matches, total_similarity))))"

text \<open>
  The loop over \<^verbatim>\<open>enumerate(clip_fingerprints)\<close> for one video. It ends with \<open>None\<close> when
  the clip is exhausted, and at the \<^verbatim>\<open>break\<close> with the recorded match and the clip list as
  reassigned, \<^verbatim>\<open>clip_fingerprints[clip_idx + consecutive_matches:]\<close>.
\<close>

fun clip_loop ::
  "video \<Rightarrow> fp list \<Rightarrow> real \<Rightarrow> int \<Rightarrow> (nat \<times> fp) list \<Rightarrow> py_error + (Match \<times> fp list) option" where
  "clip_loop v clip_fingerprints threshold min_consecutive_matches [] = Inr None"
| "clip_loop v clip_fingerprints threshold min_consecutive_matches ((clip_idx, clip_fp) # rest) =
     (let video_fps = fingerprints v in
      case best_match_search clip_fp (enumerate 0 video_fps) (0, - 1) of
        Inl e \<Rightarrow> Inl e
      | Inr (best_match_similarity, best_match_idx) \<Rightarrow>
          if best_match_similarity \<ge> threshold then
            (case check_following clip_fingerprints video_fps threshold clip_idx best_match_idx
                    [1 ..< nat (min (int (length clip_fingerprints) - int clip_idx)
                                    (int (length video_fps) - best_match_idx))]
                    (1, best_match_similarity) of
               Inl e \<Rightarrow> Inl e
             | Inr (consecutive_matches, total_similarity) \<Rightarrow>
                 if int consecutive_matches \<ge> min_consecutive_matches then
                   (let avg_confidence = total_similarity / real consecutive_matches in
                    case py_index video_fps best_match_idx of
                      Inl e \<Rightarrow> Inl e
                    | Inr best_video_fp \<Rightarrow>
                        Inr (Some
                          (\<lparr>video_id = id_key v, video_title = title v,
                            clip_timestamp = timestamp clip_fp,
                            original_timestamp = timestamp best_video_fp,
                            confidence = avg_confidence,
                            fingerprint_matches = consecutive_matches\<rparr>,
                           py_slice_from clip_fingerprints (clip_idx + consecutive_matches))))
                 else clip_loop v clip_fingerprints threshold min_consecutive_matches rest)
          else clip_loop v clip_fingerprints threshold min_consecutive_matches rest)"

text \<open>The loop over \<^verbatim>\<open>all_videos\<close>; the state is the clip list and the matches so far.\<close>

fun video_loop :: "video list \<Rightarrow> fp list \<Rightarrow> real \<Rightarrow> int \<Rightarrow> Match list \<Rightarrow> py_error + Match list" where
  "video_loop [] clip_fingerprints threshold min_consecutive_matches matches = Inr matches"
| "video_loop (v # vs) clip_fingerprints threshold min_consecutive_matches matches =
     (case clip_loop v clip_fingerprints threshold min_consecutive_matches
             (enumerate 0 clip_fingerprints) of
        Inl e \<Rightarrow> Inl e
      | Inr None \<Rightarrow> video_loop vs clip_fingerprints threshold min_consecutive_matches matches
      | Inr (Some (match, clip_fingerprints')) \<Rightarrow>
          video_loop vs clip_fingerprints' threshold min_consecutive_matches (matches @ [match]))"

text \<open>
  \<^verbatim>\<open>matches.sort(key=lambda m: m.confidence, reverse=True)\<close>: descending, and stable as
  Python's sort is.
\<close>

definition sort_by_confidence :: "Match list \<Rightarrow> Match list" where
  "sort_by_confidence matches = sort_key (\<lambda>m. - confidence m) matches"

definition find_matches :: "video list \<Rightarrow> fp list \<Rightarrow> real \<Rightarrow> int \<Rightarrow> py_error + Match list" where
  "find_matches all_videos clip_fingerprints threshold min_consecutive_matches =
     (case video_loop all_videos clip_fingerprints threshold min_consecutive_matches [] of
        Inl e \<Rightarrow> Inl e
      | Inr matches \<Rightarrow> Inr (sort_by_confidence matches))"

text \<open>Fingerprints and videos used in the examples below.\<close>

definition fpA :: fp where "fpA = \<lparr>fingerprint = [0], hash = ''a'', timestamp = 0\<rparr>"
definition fpB :: fp where "fpB = \<lparr>fingerprint = [65535], hash = ''b'', timestamp = 5\<rparr>"
definition fpC :: fp where "fpC = \<lparr>fingerprint = [4294901760], hash = ''c'', timestamp = 10\<rparr>"
definition fpD :: fp where "fpD = \<lparr>fingerprint = [16711935], hash = ''d'', timestamp = 15\<rparr>"
definition fpE :: fp where "fpE = \<lparr>fingerprint = [4278255360], hash = ''e'', timestamp = 20\<rparr>"
definition fpF :: fp where "fpF = \<lparr>fingerprint = [252645135], hash = ''f'', timestamp = 25\<rparr>"
definition fpX :: fp where "fpX = \<lparr>fingerprint = [4294967295], hash = ''x'', timestamp = 10\<rparr>"

definition at_time :: "fp \<Rightarrow> real \<Rightarrow> fp" where
  "at_time f t = f\<lparr>timestamp := t\<rparr>"

definition video1 :: video where
  "video1 = \<lparr>id_key = ''video_1'', title = ''one'', fingerprints = [fpA, fpB, fpC, fpD, fpE, fpF]\<rparr>"

definition video2 :: video where
  "video2 = \<lparr>id_key = ''video_2'', title = ''two'', fingerprints = [fpA, fpB, fpC, fpD, fpE, fpF]\<rparr>"

definition spliced_clip :: "fp list" where
  "spliced_clip = [at_time fpA 0, at_time fpB 5, at_time fpX 10, at_time fpE 15, at_time fpF 20]"


section \<open>Analysis of the matched timestamps (run_frankenstein_tests.py)\<close>

text \<open>
  The verdicts of the test script: \<^verbatim>\<open>No false positive\<close> when there is no match,
  \<^verbatim>\<open>Editing detected via scattered timestamps\<close>, \<^verbatim>\<open>Appears continuous\<close>, and
  \<^verbatim>\<open>Partial detection - most segments rejected\<close> when there is one match only.
\<close>

datatype verdict = No_false_positive | Editing_detected | Appears_continuous | Partial_detection

text \<open>\<^verbatim>\<open>timestamps[i+1] - timestamps[i] for i in range(len(timestamps)-1)\<close>\<close>

definition timestamp_gaps :: "real list \<Rightarrow> real list" where
  "timestamp_gaps timestamps =
     map (\<lambda>i. timestamps ! (i + 1) - timestamps ! i) [0 ..< length timestamps - 1]"

text \<open>\<^verbatim>\<open>max(...)\<close> raises \<^verbatim>\<open>ValueError\<close> on an empty sequence.\<close>

fun py_max :: "real list \<Rightarrow> py_error + real" where
  "py_max [] = Inl ValueError"
| "py_max (x # xs) = Inr (fold max xs x)"

definition analyse_matches :: "Match list \<Rightarrow> py_error + verdict" where
  "analyse_matches matches =
     (if matches = [] then Inr No_false_positive
      else if length matches > 1 then
        (let timestamps = map original_timestamp matches in
         case py_max (timestamp_gaps timestamps) of
           Inl e \<Rightarrow> Inl e
         | Inr max_gap \<Rightarrow>
             if max_gap > 300 then Inr Editing_detected else Inr Appears_continuous)
      else Inr Partial_detection)"

text \<open>A match of the examples below, at a timestamp of the clip and one of the original.\<close>

definition match_at :: "real \<Rightarrow> real \<Rightarrow> Match" where
  "match_at c t = \<lparr>video_id = ''video_1'', video_title = ''one'', clip_timestamp = c,
                   original_timestamp = t, confidence = 1, fingerprint_matches = 2\<rparr>"


section \<open>The ratio of Python's difflib.SequenceMatcher\<close>

text \<open>
  \<^verbatim>\<open>SequenceMatcher(None, a, b).ratio()\<close> belongs to Python's standard library, not to the
  repository. It is modelled here from the library's implementation, for the call the
  repository makes: no junk predicate, \<^verbatim>\<open>autojunk\<close> left at its default.

  An element of \<open>b\<close> is popular when \<open>b\<close> has at least 200 elements and the element
  occurs more than \<open>len(b) // 100 + 1\<close> times; \<^verbatim>\<open>b2j\<close> maps every other element to the
  ascending list of its positions in \<open>b\<close>.
\<close>

definition bpopular :: "'a list \<Rightarrow> 'a \<Rightarrow> bool" where
  "bpopular b elt \<longleftrightarrow> length b \<ge> 200 \<and> count_list b elt > length b div 100 + 1"

definition b2j :: "'a list \<Rightarrow> 'a \<Rightarrow> nat list" where
  "b2j b elt = (if bpopular b elt then [] else filter (\<lambda>j. b ! j = elt) [0 ..< length b])"

text \<open>
  \<^verbatim>\<open>find_longest_match\<close>, the loop over the positions \<open>j\<close> of \<open>a[i]\<close> in \<open>b\<close>; the state is
  \<open>(newj2len, besti, bestj, bestsize)\<close>, and \<open>j2len\<close> holds the lengths of the matches that
  end in the previous row.
\<close>

fun row_loop ::
  "nat \<Rightarrow> nat \<Rightarrow> nat \<Rightarrow> (nat \<rightharpoonup> nat) \<Rightarrow> nat list \<Rightarrow>
   (nat \<rightharpoonup> nat) \<times> nat \<times> nat \<times> nat \<Rightarrow> (nat \<rightharpoonup> nat) \<times> nat \<times> nat \<times> nat" where
  "row_loop i blo bhi j2len [] st = st"
| "row_loop i blo bhi j2len (j # js) (newj2len, besti, bestj, bestsize) =
     (if j < blo then row_loop i blo bhi j2len js (newj2len, besti, bestj, bestsize)
      else if j \<ge> bhi then (newj2len, besti, bestj, bestsize)
      else
        (let k = (if j = 0 then 0 else case j2len (j - 1) of None \<Rightarrow> 0 | Some v \<Rightarrow> v) + 1
         in if k > bestsize
            then row_loop i blo bhi j2len js (newj2len(j \<mapsto> k), i + 1 - k, j + 1 - k, k)
            else row_loop i blo bhi j2len js (newj2len(j \<mapsto> k), besti, bestj, bestsize)))"

text \<open>The loop over \<^verbatim>\<open>range(alo, ahi)\<close>.\<close>

fun rows_loop ::
  "'a list \<Rightarrow> 'a list \<Rightarrow> nat \<Rightarrow> nat \<Rightarrow> nat list \<Rightarrow>
   (nat \<rightharpoonup> nat) \<times> nat \<times> nat \<times> nat \<Rightarrow> nat \<times> nat \<times> nat" where
  "rows_loop a b blo bhi [] (j2len, best) = best"
| "rows_loop a b blo bhi (i # is) (j2len, besti, bestj, bestsize) =
     rows_loop a b blo bhi is
       (row_loop i blo bhi j2len (b2j b (a ! i)) (Map.empty, besti, bestj, bestsize))"

text \<open>
  The two loops that extend the best match by equal elements on both ends. No element
  is junk, so the two loops over junk elements that follow in the library do nothing.
\<close>

function extend_back :: "'a list \<Rightarrow> 'a list \<Rightarrow> nat \<Rightarrow> nat \<Rightarrow> nat \<times> nat \<times> nat \<Rightarrow> nat \<times> nat \<times> nat" where
  "extend_back a b alo blo (besti, bestj, bestsize) =
     (if besti > alo \<and> bestj > blo \<and> a ! (besti - 1) = b ! (bestj - 1)
      then extend_back a b alo blo (besti - 1, bestj - 1, bestsize + 1)
      else (besti, bestj, bestsize))"
  by pat_completeness auto
termination
  by (relation "measure (\<lambda>(a, b, alo, blo, besti, bestj, bestsize). besti)") auto

declare extend_back.simps [simp del]

function extend_forward :: "'a list \<Rightarrow> 'a list \<Rightarrow> nat \<Rightarrow> nat \<Rightarrow> nat \<times> nat \<times> nat \<Rightarrow> nat \<times> nat \<times> nat" where
  "extend_forward a b ahi bhi (besti, bestj, bestsize) =
     (if besti + bestsize < ahi \<and> bestj + bestsize < bhi
         \<and> a ! (besti + bestsize) = b ! (bestj + bestsize)
      then extend_forward a b ahi bhi (besti, bestj, bestsize + 1)
      else (besti, bestj, bestsize))"
  by pat_completeness auto
termination
  by (relation "measure (\<lambda>(a, b, ahi, bhi, besti, bestj, bestsize). ahi - (besti + bestsize))") auto

declare extend_forward.simps [simp del]

definition find_longest_match :: "'a list \<Rightarrow> 'a list \<Rightarrow> nat \<Rightarrow> nat \<Rightarrow> nat \<Rightarrow> nat \<Rightarrow> nat \<times> nat \<times> nat" where
  "find_longest_match a b alo ahi blo bhi =
     extend_forward a b ahi bhi
       (extend_back a b alo blo
          (rows_loop a b blo bhi [alo ..< ahi] (Map.empty, alo, blo, 0)))"

text \<open>
  The result of \<^verbatim>\<open>find_longest_match\<close> lies within the ranges it was given; the
  recursion over the matching blocks below terminates for that reason.
\<close>

definition best_ok :: "nat \<Rightarrow> nat \<Rightarrow> nat \<Rightarrow> nat \<Rightarrow> nat \<times> nat \<times> nat \<Rightarrow> bool" where
  "best_ok alo ahi blo bhi best =
     (case best of (besti, bestj, bestsize) \<Rightarrow>
        (bestsize = 0 \<and> besti = alo \<and> bestj = blo)
        \<or> (alo \<le> besti \<and> besti + bestsize \<le> ahi \<and> blo \<le> bestj \<and> bestj + bestsize \<le> bhi))"

definition j2len_ok :: "nat \<Rightarrow> nat \<Rightarrow> nat \<Rightarrow> (nat \<rightharpoonup> nat) \<Rightarrow> bool" where
  "j2len_ok bound blo bhi m =
     (\<forall>j v. m j = Some v \<longrightarrow> blo \<le> j \<and> j < bhi \<and> v \<le> j + 1 - blo \<and> v \<le> bound)"

lemma row_loop_inv:
  assumes "j2len_ok (i - alo) blo bhi j2len" and "alo \<le> i"
    and "j2len_ok (i + 1 - alo) blo bhi newj2len" and "best_ok alo (i + 1) blo bhi best"
  shows "case row_loop i blo bhi j2len js (newj2len, best) of (m, best') \<Rightarrow>
           j2len_ok (i + 1 - alo) blo bhi m \<and> best_ok alo (i + 1) blo bhi best'"
  using assms(3,4)
proof (induction js arbitrary: newj2len best)
  case Nil
  then show ?case by simp
next
  case (Cons j js)
  obtain besti bestj bestsize where best: "best = (besti, bestj, bestsize)" by (cases best)
  show ?case
  proof (cases "j < blo")
    case True
    then show ?thesis using Cons best by simp
  next
    case lo: False
    show ?thesis
    proof (cases "j \<ge> bhi")
      case True
      then show ?thesis using Cons.prems lo best by simp
    next
      case hi: False
      define k where "k = (if j = 0 then 0 else case j2len (j - 1) of None \<Rightarrow> 0 | Some v \<Rightarrow> v) + 1"
      have step: "row_loop i blo bhi j2len (j # js) (newj2len, besti, bestj, bestsize) =
          (if k > bestsize
           then row_loop i blo bhi j2len js (newj2len(j \<mapsto> k), i + 1 - k, j + 1 - k, k)
           else row_loop i blo bhi j2len js (newj2len(j \<mapsto> k), besti, bestj, bestsize))"
        unfolding k_def using lo hi by (simp only: row_loop.simps Let_def if_False)
      have k1: "k \<le> j + 1 - blo" and k2: "k \<le> i + 1 - alo"
        using assms(1,2) lo hi unfolding k_def
        by (auto simp: j2len_ok_def split: option.splits) (fastforce+)
      have m: "j2len_ok (i + 1 - alo) blo bhi (newj2len(j \<mapsto> k))"
        using Cons.prems(1) k1 k2 lo hi by (auto simp: j2len_ok_def)
      have b: "best_ok alo (i + 1) blo bhi (i + 1 - k, j + 1 - k, k)"
        using k1 k2 lo hi assms(2) by (auto simp: best_ok_def)
      show ?thesis
      proof (cases "k > bestsize")
        case True
        then show ?thesis
          unfolding best step using Cons.IH [OF m b] by (simp only: if_True)
      next
        case False
        then show ?thesis
          unfolding best step using Cons.IH [OF m Cons.prems(2) [unfolded best]]
          by (simp only: if_False)
      qed
    qed
  qed
qed

lemma best_ok_mono: "best_ok alo ahi blo bhi best \<Longrightarrow> ahi \<le> ahi' \<Longrightarrow> best_ok alo ahi' blo bhi best"
  by (auto simp: best_ok_def)

lemma rows_loop_inv:
  assumes "alo \<le> i0" "i0 \<le> ahi" "j2len_ok (i0 - alo) blo bhi j2len" "best_ok alo i0 blo bhi best"
  shows "best_ok alo ahi blo bhi (rows_loop a b blo bhi [i0 ..< ahi] (j2len, best))"
  using assms
proof (induction "ahi - i0" arbitrary: i0 j2len best)
  case 0
  then show ?case by (cases best) simp
next
  case (Suc n)
  obtain besti bestj bestsize where best: "best = (besti, bestj, bestsize)" by (cases best)
  have lt: "i0 < ahi" using Suc.hyps(2) by simp
  obtain m best' where r: "row_loop i0 blo bhi j2len (b2j b (a ! i0)) (Map.empty, best) = (m, best')"
    by (cases "row_loop i0 blo bhi j2len (b2j b (a ! i0)) (Map.empty, best)")
  have e: "j2len_ok (i0 + 1 - alo) blo bhi Map.empty" by (simp add: j2len_ok_def)
  have "best_ok alo (i0 + 1) blo bhi best" using Suc.prems(4) by (rule best_ok_mono) simp
  from row_loop_inv [OF Suc.prems(3) Suc.prems(1) e this, of "b2j b (a ! i0)"] r
  have m: "j2len_ok (Suc i0 - alo) blo bhi m" and b: "best_ok alo (Suc i0) blo bhi best'"
    by simp_all
  have "best_ok alo ahi blo bhi (rows_loop a b blo bhi [Suc i0 ..< ahi] (m, best'))"
    using Suc.hyps(1) [of "Suc i0" m best'] Suc.hyps(2) Suc.prems(1) lt m b by simp
  then show ?case using lt r best by (simp add: upt_conv_Cons)
qed

lemma extend_back_inv:
  "best_ok alo ahi blo bhi best \<Longrightarrow> best_ok alo ahi blo bhi (extend_back a b alo blo best)"
proof (induction a b alo blo best rule: extend_back.induct)
  case (1 a b alo blo besti bestj bestsize)
  show ?case
  proof (cases "besti > alo \<and> bestj > blo \<and> a ! (besti - 1) = b ! (bestj - 1)")
    case True
    have step: "extend_back a b alo blo (besti, bestj, bestsize) =
        extend_back a b alo blo (besti - 1, bestj - 1, bestsize + 1)"
      by (subst extend_back.simps) (use True in \<open>simp only: if_True simp_thms\<close>)
    have "best_ok alo ahi blo bhi (besti - 1, bestj - 1, bestsize + 1)"
      using "1.prems" True by (auto simp: best_ok_def)
    then show ?thesis unfolding step using True by (intro "1.IH") 
  next
    case False
    have step: "extend_back a b alo blo (besti, bestj, bestsize) = (besti, bestj, bestsize)"
      by (subst extend_back.simps) (use False in \<open>simp only: if_False\<close>)
    show ?thesis unfolding step by (rule "1.prems")
  qed
qed

lemma extend_forward_inv:
  "best_ok alo ahi blo bhi best \<Longrightarrow> best_ok alo ahi blo bhi (extend_forward a b ahi bhi best)"
proof (induction a b ahi bhi best rule: extend_forward.induct)
  case (1 a b ahi bhi besti bestj bestsize)
  show ?case
  proof (cases "besti + bestsize < ahi \<and> bestj + bestsize < bhi
         \<and> a ! (besti + bestsize) = b ! (bestj + bestsize)")
    case True
    have step: "extend_forward a b ahi bhi (besti, bestj, bestsize) =
        extend_forward a b ahi bhi (besti, bestj, bestsize + 1)"
      by (subst extend_forward.simps) (use True in \<open>simp only: if_True simp_thms\<close>)
    have "best_ok alo ahi blo bhi (besti, bestj, bestsize + 1)"
      using "1.prems" True by (auto simp: best_ok_def)
    then show ?thesis unfolding step using True by (intro "1.IH")
  next
    case False
    have step: "extend_forward a b ahi bhi (besti, bestj, bestsize) = (besti, bestj, bestsize)"
      by (subst extend_forward.simps) (use False in \<open>simp only: if_False\<close>)
    show ?thesis unfolding step by (rule "1.prems")
  qed
qed

lemma find_longest_match_ok:
  "best_ok alo ahi blo bhi (find_longest_match a b alo ahi blo bhi)"
proof -
  have "best_ok alo ahi blo bhi (rows_loop a b blo bhi [alo ..< ahi] (Map.empty, alo, blo, 0))"
  proof (cases "alo \<le> ahi")
    case True
    show ?thesis
      by (rule rows_loop_inv) (use True in \<open>simp_all add: j2len_ok_def best_ok_def\<close>)
  next
    case False
    then show ?thesis by (simp add: best_ok_def)
  qed
  then show ?thesis
    unfolding find_longest_match_def by (intro extend_forward_inv extend_back_inv)
qed

lemma find_longest_match_bounds:
  assumes "find_longest_match a b alo ahi blo bhi = (i, j, k)" and "k \<noteq> 0"
  shows "alo \<le> i \<and> i + k \<le> ahi \<and> blo \<le> j \<and> j + k \<le> bhi"
  using find_longest_match_ok [of alo ahi blo bhi a b] assms by (simp add: best_ok_def)

text \<open>
  \<^verbatim>\<open>get_matching_blocks\<close>: the longest match of the two ranges, then the matching blocks
  to its left and to its right. The library works through a stack of ranges and sorts
  the blocks afterwards; the recursion yields them in sorted order. (Merging adjacent
  blocks, as the library does next, leaves the sum of the sizes unchanged.)
\<close>

function matching_blocks :: "'a list \<Rightarrow> 'a list \<Rightarrow> nat \<Rightarrow> nat \<Rightarrow> nat \<Rightarrow> nat \<Rightarrow> (nat \<times> nat \<times> nat) list" where
  "matching_blocks a b alo ahi blo bhi =
     (let x = find_longest_match a b alo ahi blo bhi;
          i = fst x; j = fst (snd x); k = snd (snd x)
      in if k = 0 then []
         else (if alo < i \<and> blo < j then matching_blocks a b alo i blo j else [])
              @ [(i, j, k)]
              @ (if i + k < ahi \<and> j + k < bhi then matching_blocks a b (i + k) ahi (j + k) bhi
                 else []))"
  by pat_completeness auto
termination
proof (relation "measure (\<lambda>(a, b, alo, ahi, blo, bhi). (ahi - alo) + (bhi - blo))")
  show "wf (measure (\<lambda>(a, b, alo, ahi, blo, bhi). (ahi - alo) + (bhi - blo)))"
    by simp
next
  fix a b :: "'a list" and alo ahi blo bhi :: nat and x i j k
  assume "x = find_longest_match a b alo ahi blo bhi" "i = fst x" "j = fst (snd x)"
    "k = snd (snd x)" "k \<noteq> 0" "alo < i \<and> blo < j"
  then have "find_longest_match a b alo ahi blo bhi = (i, j, k)" by simp
  from find_longest_match_bounds [OF this \<open>k \<noteq> 0\<close>] \<open>k \<noteq> 0\<close> \<open>alo < i \<and> blo < j\<close>
  have "(i - alo) + (j - blo) < (ahi - alo) + (bhi - blo)"
    by linarith
  then show "((a, b, alo, i, blo, j), (a, b, alo, ahi, blo, bhi))
          \<in> measure (\<lambda>(a, b, alo, ahi, blo, bhi). (ahi - alo) + (bhi - blo))"
    by simp
next
  fix a b :: "'a list" and alo ahi blo bhi :: nat and x i j k
  assume "x = find_longest_match a b alo ahi blo bhi" "i = fst x" "j = fst (snd x)"
    "k = snd (snd x)" "k \<noteq> 0" "i + k < ahi \<and> j + k < bhi"
  then have "find_longest_match a b alo ahi blo bhi = (i, j, k)" by simp
  from find_longest_match_bounds [OF this \<open>k \<noteq> 0\<close>] \<open>k \<noteq> 0\<close> \<open>i + k < ahi \<and> j + k < bhi\<close>
  have "(ahi - (i + k)) + (bhi - (j + k)) < (ahi - alo) + (bhi - blo)"
    by linarith
  then show "((a, b, i + k, ahi, j + k, bhi), (a, b, alo, ahi, blo, bhi))
          \<in> measure (\<lambda>(a, b, alo, ahi, blo, bhi). (ahi - alo) + (bhi - blo))"
    by simp
qed

declare matching_blocks.simps [simp del]

text \<open>\<^verbatim>\<open>ratio\<close>: \<^verbatim>\<open>2.0 * matches / length\<close>, and 1.0 for two empty sequences.\<close>

definition ratio :: "'a list \<Rightarrow> 'a list \<Rightarrow> real" where
  "ratio a b =
     (let matches = sum_list (map (\<lambda>(i, j, k). k) (matching_blocks a b 0 (length a) 0 (length b)));
          total = length a + length b
      in if total \<noteq> 0 then 2 * real matches / real total else 1)"


section \<open>The sliding window matcher (ai-layer/sliding_window_matcher.py)\<close>

text \<open>An entry of the word list of a transcription, \<^verbatim>\<open>{'word', 'start', 'end'}\<close>.\<close>

record word_entry =
  word :: string
  word_start :: real
  word_end :: real

record transcription =
  video_path :: string
  video_name :: string
  full_text :: string
  normalized_text :: string
  words :: "word_entry list"
  duration :: real
  word_count :: nat

text \<open>The dict that \<^verbatim>\<open>find_best_match\<close> returns.\<close>

record text_match =
  match_video_path :: string
  match_video_name :: string
  start_time :: real
  end_time :: real
  similarity :: real
  start_word_index :: int
  end_word_index :: int
  matched_text :: string
  clip_word_count :: nat
  match_duration :: real

definition calculate_text_similarity :: "string \<Rightarrow> string \<Rightarrow> real" where
  "calculate_text_similarity text1 text2 = ratio text1 text2"

text \<open>
  \<^verbatim>\<open>text.split()\<close>: the maximal runs of characters that are not whitespace. A
  character is a code point below 256; the whitespace characters among these are the
  ones below, with U+0085 and U+00A0.
\<close>

definition is_space :: "char \<Rightarrow> bool" where
  "is_space c \<longleftrightarrow> c \<in> set [CHR '' '', CHR 0x09, CHR 0x0A, CHR 0x0B, CHR 0x0C, CHR 0x0D,
                             CHR 0x1C, CHR 0x1D, CHR 0x1E, CHR 0x1F, CHR 0x85, CHR 0xA0]"

fun split_words :: "string \<Rightarrow> string \<Rightarrow> string list" where
  "split_words [] cur = (if cur = [] then [] else [cur])"
| "split_words (c # cs) cur =
     (if is_space c then (if cur = [] then split_words cs [] else cur # split_words cs [])
      else split_words cs (cur @ [c]))"

definition split_into_words :: "string \<Rightarrow> string list" where
  "split_into_words text = split_words text []"

text \<open>\<^verbatim>\<open>' '.join(words)\<close>\<close>

fun join_space :: "string list \<Rightarrow> string" where
  "join_space [] = []"
| "join_space [w] = w"
| "join_space (w # ws) = w @ '' '' @ join_space ws"

text \<open>
  The loop over \<^verbatim>\<open>range(video_word_count - clip_word_count + 1)\<close>; the state is
  \<open>(best_similarity, best_position)\<close> and starts at \<open>(0.0, -1)\<close>.
\<close>

fun window_loop :: "string list \<Rightarrow> string list \<Rightarrow> nat list \<Rightarrow> real \<times> int \<Rightarrow> real \<times> int" where
  "window_loop clip_words video_words [] best = best"
| "window_loop clip_words video_words (start_idx # rest) (best_similarity, best_position) =
     (let end_idx = start_idx + length clip_words;
          window_words = py_slice video_words (int start_idx) (int end_idx);
          window_text = join_space window_words;
          clip_text = join_space clip_words;
          similarity = calculate_text_similarity clip_text window_text
      in if similarity > best_similarity
         then window_loop clip_words video_words rest (similarity, int start_idx)
         else window_loop clip_words video_words rest (best_similarity, best_position))"

text \<open>The first argument is \<^verbatim>\<open>self.similarity_threshold\<close>.\<close>

definition find_best_match :: "real \<Rightarrow> transcription \<Rightarrow> transcription \<Rightarrow> py_error + text_match option" where
  "find_best_match similarity_threshold clip_transcription video_transcription =
     (let clip_words = split_into_words (normalized_text clip_transcription);
          video_words = split_into_words (normalized_text video_transcription);
          clip_word_count = length clip_words;
          video_word_count = length video_words
      in if clip_word_count = 0 \<or> video_word_count = 0 then Inr None
         else if clip_word_count > video_word_count then Inr None
         else
           (let (best_similarity, best_position) =
                  window_loop clip_words video_words
                    [0 ..< video_word_count - clip_word_count + 1] (0, - 1)
            in if best_similarity < similarity_threshold then Inr None
               else
                 (let start_word_index = best_position;
                      end_word_index = best_position + int clip_word_count - 1;
                      video_word_list = words video_transcription
                  in if start_word_index \<ge> int (length video_word_list)
                        \<or> end_word_index \<ge> int (length video_word_list)
                     then Inr None
                     else
                       (case py_index video_word_list start_word_index of
                          Inl e \<Rightarrow> Inl e
                        | Inr first_word \<Rightarrow>
                           (case py_index video_word_list end_word_index of
                              Inl e \<Rightarrow> Inl e
                            | Inr last_word \<Rightarrow>
                               (let start_time = word_start first_word;
                                    end_time = word_end last_word;
                                    matched_words =
                                      py_slice video_words start_word_index (end_word_index + 1);
                                    matched_text = join_space matched_words
                                in Inr (Some
                                     \<lparr>match_video_path = video_path video_transcription,
                                      match_video_name = video_name video_transcription,
                                      start_time = start_time,
                                      end_time = end_time,
                                      similarity = best_similarity,
                                      start_word_index = start_word_index,
                                      end_word_index = end_word_index,
                                      matched_text = matched_text,
                                      clip_word_count = clip_word_count,
                                      match_duration = end_time - start_time\<rparr>)))))))"

text \<open>
  \<^verbatim>\<open>search_all_videos\<close>: the matches of all videos, sorted by similarity, highest first
  (a stable sort).
\<close>

fun search_loop ::
  "real \<Rightarrow> transcription \<Rightarrow> transcription list \<Rightarrow> text_match list \<Rightarrow> py_error + text_match list" where
  "search_loop similarity_threshold clip_transcription [] matches = Inr matches"
| "search_loop similarity_threshold clip_transcription (video_trans # rest) matches =
     (case find_best_match similarity_threshold clip_transcription video_trans of
        Inl e \<Rightarrow> Inl e
      | Inr None \<Rightarrow> search_loop similarity_threshold clip_transcription rest matches
      | Inr (Some match) \<Rightarrow>
          search_loop similarity_threshold clip_transcription rest (matches @ [match]))"

definition search_all_videos ::
  "real \<Rightarrow> transcription \<Rightarrow> transcription list \<Rightarrow> py_error + text_match list" where
  "search_all_videos similarity_threshold clip_transcription video_transcriptions =
     (case search_loop similarity_threshold clip_transcription video_transcriptions [] of
        Inl e \<Rightarrow> Inl e
      | Inr matches \<Rightarrow> Inr (sort_key (\<lambda>x. - similarity x) matches))"

text \<open>Transcriptions used in the examples below.\<close>

definition timed_words :: "string list \<Rightarrow> word_entry list" where
  "timed_words ws =
     map (\<lambda>(i, w). \<lparr>word = w, word_start = real i, word_end = real i + 1 / 2\<rparr>) (enumerate 0 ws)"

definition transcription_of :: "string \<Rightarrow> string \<Rightarrow> word_entry list \<Rightarrow> transcription" where
  "transcription_of name text ws =
     \<lparr>video_path = ''download/'' @ name, video_name = name, full_text = text,
      normalized_text = text, words = ws, duration = real (length ws),
      word_count = length ws\<rparr>"

text \<open>The similarity the loop computes at the window that starts at \<open>start_idx\<close>.\<close>

definition window_similarity :: "string list \<Rightarrow> string list \<Rightarrow> nat \<Rightarrow> real" where
  "window_similarity clip_words video_words start_idx =
     calculate_text_similarity (join_space clip_words)
       (join_space (py_slice video_words (int start_idx) (int (start_idx + length clip_words))))"


section \<open>Speaker verification (ai-layer/speaker_verification.py)\<close>

text \<open>
  An exception that the service catches as \<^verbatim>\<open>Exception\<close> is the string \<^verbatim>\<open>str(e)\<close>.
\<close>

definition str_error :: "py_error \<Rightarrow> string" where
  "str_error e = (case e of
      ZeroDivisionError \<Rightarrow> ''division by zero''
    | IndexError \<Rightarrow> ''list index out of range''
    | ValueError \<Rightarrow> ''shapes not aligned'')"

text \<open>\<^verbatim>\<open>np.dot\<close> of two vectors raises \<^verbatim>\<open>ValueError\<close> when their lengths differ.\<close>

definition np_dot :: "real list \<Rightarrow> real list \<Rightarrow> py_error + real" where
  "np_dot u v =
     (if length u \<noteq> length v then Inl ValueError else Inr (sum_list (map2 (*) u v)))"

text \<open>\<^verbatim>\<open>SpeakerVerifier.calculate_similarity\<close>\<close>

definition speaker_calculate_similarity :: "real list \<Rightarrow> real list \<Rightarrow> py_error + real" where
  "speaker_calculate_similarity embedding1 embedding2 =
     (case np_dot embedding1 embedding2 of
        Inl e \<Rightarrow> Inl e
      | Inr dot \<Rightarrow> Inr ((dot + 1) / 2))"

text \<open>
  The providers the service calls, outside the repository's matching code: the
  transcriber, the list of the video files, the extraction of an audio segment (it
  returns the path of a temporary file) and the embedding model. A provider returns a
  value or raises.
\<close>

record providers =
  transcribe_clip :: "string \<Rightarrow> string + transcription"
  get_available_videos :: "string list"
  transcribe_with_word_timestamps :: "string \<Rightarrow> string + transcription"
  extract_audio_segment :: "string \<Rightarrow> real \<Rightarrow> real \<Rightarrow> string + string"
  audio_to_embedding :: "string \<Rightarrow> string + real list"

record speaker_result =
  sr_verified :: bool
  sr_similarity :: real
  sr_threshold :: real
  clip_embedding_dim :: nat
  original_embedding_dim :: nat
  sr_message :: string

definition verify_speaker ::
  "providers \<Rightarrow> string \<Rightarrow> real \<Rightarrow> real \<Rightarrow> string \<Rightarrow> real \<Rightarrow> real \<Rightarrow> real \<Rightarrow> string + speaker_result" where
  "verify_speaker env clip_path clip_start clip_duration original_path original_start
       original_duration threshold =
     (case extract_audio_segment env clip_path clip_start clip_duration of
        Inl e \<Rightarrow> Inl e
      | Inr clip_audio_path \<Rightarrow>
     (case extract_audio_segment env original_path original_start original_duration of
        Inl e \<Rightarrow> Inl e
      | Inr original_audio_path \<Rightarrow>
     (case audio_to_embedding env clip_audio_path of
        Inl e \<Rightarrow> Inl e
      | Inr clip_embedding \<Rightarrow>
     (case audio_to_embedding env original_audio_path of
        Inl e \<Rightarrow> Inl e
      | Inr original_embedding \<Rightarrow>
     (case speaker_calculate_similarity clip_embedding original_embedding of
        Inl e \<Rightarrow> Inl (str_error e)
      | Inr speaker_sim \<Rightarrow>
         (let is_verified = speaker_sim \<ge> threshold
          in Inr \<lparr>sr_verified = is_verified,
                  sr_similarity = speaker_sim,
                  sr_threshold = threshold,
                  clip_embedding_dim = length clip_embedding,
                  original_embedding_dim = length original_embedding,
                  sr_message = (if is_verified then ''Same speaker''
                                else ''Different speaker - possible deepfake'')\<rparr>))))))"

section \<open>The verification endpoint (ai-layer/api_server.py)\<close>

definition TEXT_THRESHOLD :: real where "TEXT_THRESHOLD = 80 / 100"
definition SPEAKER_THRESHOLD :: real where "SPEAKER_THRESHOLD = 85 / 100"
definition VIDEO_DIRECTORY :: string where "VIDEO_DIRECTORY = ''download''"

datatype http_exception = HTTPException (status_code: nat) (detail: string)

text \<open>
  The dict \<^verbatim>\<open>speaker_verification\<close> of the response: with \<^verbatim>\<open>similarity\<close> and
  \<^verbatim>\<open>threshold\<close> when the speaker was compared, with \<^verbatim>\<open>error\<close> when the comparison raised.
\<close>

record speaker_verification_dict =
  sv_verified :: bool
  sv_similarity :: "real option"
  sv_threshold :: "real option"
  sv_error :: "string option"
  sv_message :: string

text \<open>
  The response. Its \<^verbatim>\<open>verification_id\<close>, \<^verbatim>\<open>clip_name\<close> and \<^verbatim>\<open>timestamp\<close> come from the
  request and the clock and are left out.
\<close>

record verification_result =
  verified :: bool
  verification_type :: string
  matches :: "text_match list"
  best_match :: "text_match option"
  speaker_verification :: "speaker_verification_dict option"
  clip_info_word_count :: nat
  clip_info_duration :: real
  clip_info_text :: string
  text_threshold :: real
  speaker_threshold :: real

text \<open>Step 3: a video whose transcription raises is skipped.\<close>

fun transcribe_videos :: "providers \<Rightarrow> string list \<Rightarrow> transcription list" where
  "transcribe_videos env [] = []"
| "transcribe_videos env (video_file # rest) =
     (case transcribe_with_word_timestamps env video_file of
        Inl e \<Rightarrow> transcribe_videos env rest
      | Inr video_transcription \<Rightarrow> video_transcription # transcribe_videos env rest)"

text \<open>
  Step 5, the \<^verbatim>\<open>try\<close> block: the speaker verification on the best match, and the
  \<^verbatim>\<open>except\<close> branch. The result is \<open>(speaker_verification, verification_type)\<close>.
\<close>

definition speaker_step ::
  "providers \<Rightarrow> string \<Rightarrow> text_match \<Rightarrow> speaker_verification_dict option \<times> string" where
  "speaker_step env temp_file_path bm =
     (let original_video_path = VIDEO_DIRECTORY @ ''/'' @ match_video_name bm;
          duration = end_time bm - start_time bm;
          verify_duration = min 10 duration
      in case verify_speaker env temp_file_path 0 verify_duration original_video_path
                (start_time bm) verify_duration SPEAKER_THRESHOLD of
           Inr speaker_result \<Rightarrow>
             (Some \<lparr>sv_verified = sr_verified speaker_result,
                    sv_similarity = Some (sr_similarity speaker_result),
                    sv_threshold = Some (sr_threshold speaker_result),
                    sv_error = None,
                    sv_message = sr_message speaker_result\<rparr>,
              if sr_verified speaker_result then ''full'' else ''content_only'')
         | Inl e \<Rightarrow>
             (Some \<lparr>sv_verified = False, sv_similarity = None, sv_threshold = None,
                    sv_error = Some e, sv_message = ''Speaker verification failed''\<rparr>,
              ''content_only''))"

text \<open>
  The endpoint \<^verbatim>\<open>verify_clip\<close> once the upload is saved at \<^verbatim>\<open>temp_file_path\<close>: the
  steps 1 to 5 and the response. An \<^verbatim>\<open>HTTPException\<close> that the endpoint raises is a
  value \<open>Inl\<close>; an exception of the matcher reaches the outer handler and becomes the
  error 500. Saving the upload, the cache of the results and the removal of the
  temporary file are left out.
\<close>

definition verify_clip :: "providers \<Rightarrow> string \<Rightarrow> http_exception + verification_result" where
  "verify_clip env temp_file_path =
     (case transcribe_clip env temp_file_path of
        Inl e \<Rightarrow> Inl (HTTPException 400 (''Failed to transcribe clip: '' @ e))
      | Inr clip_transcription \<Rightarrow>
         (let video_files = get_available_videos env in
          if video_files = []
          then Inl (HTTPException 404 (''No videos found in '' @ VIDEO_DIRECTORY))
          else
            (let video_transcriptions = transcribe_videos env video_files in
             if video_transcriptions = []
             then Inl (HTTPException 500 ''Failed to transcribe any videos'')
             else
               (case search_all_videos TEXT_THRESHOLD clip_transcription video_transcriptions of
                  Inl e \<Rightarrow> Inl (HTTPException 500 (''Verification failed: '' @ str_error e))
                | Inr found \<Rightarrow>
                   (let content_verified = length found > 0;
                        best = (if found \<noteq> [] then Some (hd found) else None);
                        (speaker, vtype) =
                          (case best of
                             None \<Rightarrow> (None, ''not_verified'')
                           | Some bm \<Rightarrow>
                               if content_verified then speaker_step env temp_file_path bm
                               else (None, ''not_verified''));
                        fully_verified = (vtype = ''full'')
                    in Inr \<lparr>verified = fully_verified,
                            verification_type = vtype,
                            matches = found,
                            best_match = best,
                            speaker_verification = speaker,
                            clip_info_word_count = word_count clip_transcription,
                            clip_info_duration = duration clip_transcription,
                            clip_info_text = full_text clip_transcription,
                            text_threshold = TEXT_THRESHOLD,
                            speaker_threshold = SPEAKER_THRESHOLD\<rparr>)))))"

section \<open>The verdict of the hybrid verifier (hybrid_verification.py)\<close>

definition SPEAKER_SIMILARITY_THRESHOLD :: real where "SPEAKER_SIMILARITY_THRESHOLD = 90 / 100"

text \<open>
  The explanation of the verdict: verified with high confidence (with the start of the
  content match), verified with medium confidence, content matches but speaker
  verification failed, weak match.
\<close>

datatype explanation = Verified_high real | Verified_medium | Speaker_failed | Weak_match

text \<open>
  The part of the result that the verdict decides; \<^verbatim>\<open>matched_video\<close> and
  \<^verbatim>\<open>content_match\<close> are copied from the content match and are left out.
\<close>

record hybrid_result =
  hybrid_verified :: bool
  hybrid_confidence :: string
  speaker_match_similarity :: real
  speaker_match_verified :: bool
  speaker_match_threshold :: real
  hybrid_explanation :: explanation

text \<open>
  \<^verbatim>\<open>HybridVerifier.verify_clip\<close> from the list \<^verbatim>\<open>speaker_similarities\<close> on: the mean of the
  similarities against the threshold, and the verdict from that and from the confidence
  of the content match.
\<close>

definition hybrid_verdict :: "real list \<Rightarrow> string \<Rightarrow> real \<Rightarrow> hybrid_result" where
  "hybrid_verdict speaker_similarities content_confidence start_timestamp =
     (let (speaker_verified, speaker_similarity) =
            (if speaker_similarities = [] then (False, 0)
             else (let mean = sum_list speaker_similarities / real (length speaker_similarities)
                   in (mean \<ge> SPEAKER_SIMILARITY_THRESHOLD, mean)));
          (final_confidence, is_verified, expl) =
            (if speaker_verified \<and> content_confidence = ''high''
               then (''high'', True, Verified_high start_timestamp)
             else if speaker_verified \<and> content_confidence = ''medium''
               then (''medium'', True, Verified_medium)
             else if content_confidence = ''high'' \<and> \<not> speaker_verified
               then (''low'', False, Speaker_failed)
             else (''low'', False, Weak_match))
      in \<lparr>hybrid_verified = is_verified,
          hybrid_confidence = final_confidence,
          speaker_match_similarity = speaker_similarity,
          speaker_match_verified = speaker_verified,
          speaker_match_threshold = SPEAKER_SIMILARITY_THRESHOLD,
          hybrid_explanation = expl\<rparr>)"

text \<open>
  When the list is empty the method prints the line \<^verbatim>\<open>Warning: Could not verify speaker (no
  audio embeddings)\<close>, if \<^verbatim>\<open>verbose\<close> is set; the value is whether the line is printed.
\<close>

definition no_embeddings_warning :: "bool \<Rightarrow> real list \<Rightarrow> bool" where
  "no_embeddings_warning verbose speaker_similarities \<longleftrightarrow>
     speaker_similarities = [] \<and> verbose"

section \<open>The database check of the fingerprint verifier (verification.py)\<close>


text \<open>
  Providers used in the examples below: one reference video with the text a b c d e, a clip
  with the given text, and a speaker comparison that raises or yields the two embeddings
  \<open>[1, 0]\<close> and the given one.
\<close>

definition example_providers :: "string \<Rightarrow> string list \<Rightarrow> (string + real list) \<Rightarrow> providers" where
  "example_providers clip_text video_files original_embedding =
     \<lparr>transcribe_clip = (\<lambda>p. Inr (transcription_of ''clip.mp4'' clip_text
                                      (timed_words (split_into_words clip_text)))),
      get_available_videos = video_files,
      transcribe_with_word_timestamps =
        (\<lambda>p. Inr (transcription_of ''v.mp4'' ''a b c d e''
                     (timed_words [''a'', ''b'', ''c'', ''d'', ''e'']))),
      extract_audio_segment = (\<lambda>p s d. Inr (p @ ''.wav'')),
      audio_to_embedding =
        (\<lambda>p. if p = ''upload.mp4.wav'' then Inr [1, 0] else original_embedding)\<rparr>"

section \<open>Properties of the similarity of fingerprints\<close>

lemma count_ones_bin_digits_bound:
  "0 \<le> n \<Longrightarrow> n < 2 ^ k \<Longrightarrow> count_list (bin_digits n) CHR ''1'' \<le> k"
proof (induction n arbitrary: k rule: bin_digits.induct)
  case (1 n)
  show ?case
  proof (cases "n < 2")
    case True
    then have "n = 0 \<or> n = 1" using "1.prems" by auto
    then show ?thesis
    proof
      assume "n = 0"
      then show ?thesis by (simp add: bin_digits.simps [of 0])
    next
      assume n1: "n = 1"
      then have "k \<noteq> 0" using "1.prems" by (cases k) auto
      then show ?thesis using n1 by (simp add: bin_digits.simps [of 1] Suc_le_eq)
    qed
  next
    case False
    then obtain j where k: "k = Suc j" using "1.prems" by (cases k) auto
    have "n div 2 < 2 ^ j" using "1.prems" k by auto
    moreover have "0 \<le> n div 2" using "1.prems" by simp
    ultimately have "count_list (bin_digits (n div 2)) CHR ''1'' \<le> j"
      using "1.IH" False by simp
    then show ?thesis using False k
      by (simp add: bin_digits.simps [of n])
  qed
qed

lemma count_ones_bin_bound:
  assumes "0 \<le> x" "x < 2 ^ k"
  shows "count_list (bin x) CHR ''1'' \<le> k"
  using assms count_ones_bin_digits_bound [of x k] by (simp add: bin_def)

lemma count_ones_bin_zero: "count_list (bin 0) CHR ''1'' = 0"
  by (simp add: bin_def bin_digits.simps [of 0])

lemma count_bits_eq:
  "count_bits arr1 arr2 i min_len (t, d) =
     (t + 32 * (min_len - i),
      d + (\<Sum>k = i..<min_len. count_list (bin ((arr1 ! k) XOR (arr2 ! k))) CHR ''1''))"
proof (induction arr1 arr2 i min_len "(t, d)" arbitrary: t d rule: count_bits.induct)
  case (1 arr1 arr2 i min_len t d)
  show ?case
  proof (cases "i < min_len")
    case True
    then show ?thesis
      using "1.hyps" [OF True refl]
      by (simp add: count_bits.simps [of arr1 arr2 i] sum.atLeast_Suc_lessThan Suc_diff_Suc)
  next
    case False
    then show ?thesis by (simp add: count_bits.simps [of arr1 arr2 i])
  qed
qed

lemma calculate_similarity_arrays:
  assumes "fingerprint fp1 \<noteq> []" "fingerprint fp2 \<noteq> []"
  shows "calculate_similarity fp1 fp2 =
     Inr (1 - real (\<Sum>i<min (length (fingerprint fp1)) (length (fingerprint fp2)).
                      count_list (bin ((fingerprint fp1 ! i) XOR (fingerprint fp2 ! i))) CHR ''1'')
              / real (min (length (fingerprint fp1)) (length (fingerprint fp2)) * 32))"
proof -
  have "0 < min (length (fingerprint fp1)) (length (fingerprint fp2))"
    using assms by simp
  then show ?thesis using assms
    by (simp add: calculate_similarity_def Let_def count_bits_eq lessThan_atLeast0 mult.commute)
qed

lemma calculate_similarity_self:
  assumes "fingerprint fp1 \<noteq> []"
  shows "calculate_similarity fp1 fp1 = Inr 1"
  using assms by (simp add: calculate_similarity_arrays count_ones_bin_zero)

lemma calculate_similarity_commute:
  assumes "fingerprint fp1 \<noteq> []" "fingerprint fp2 \<noteq> []"
  shows "calculate_similarity fp1 fp2 = calculate_similarity fp2 fp1"
  using assms by (simp add: calculate_similarity_arrays xor.commute min.commute)

lemma different_bits_bound:
  assumes "\<forall>x \<in> set arr1 \<union> set arr2. 0 \<le> x \<and> x < 2 ^ 32"
    and "n \<le> length arr1" "n \<le> length arr2"
  shows "(\<Sum>i<n. count_list (bin ((arr1 ! i) XOR (arr2 ! i))) CHR ''1'') \<le> n * 32"
proof -
  have "count_list (bin ((arr1 ! i) XOR (arr2 ! i))) CHR ''1'' \<le> 32" if "i < n" for i
  proof -
    have a: "0 \<le> arr1 ! i \<and> arr1 ! i < 2 ^ 32" using assms that by simp
    have b: "0 \<le> arr2 ! i \<and> arr2 ! i < 2 ^ 32" using assms that by simp
    have "0 \<le> (arr1 ! i) XOR (arr2 ! i)" using a b by simp
    moreover have "(arr1 ! i) XOR (arr2 ! i) < 2 ^ 32" using a b by (intro XOR_upper) auto
    ultimately show ?thesis by (rule count_ones_bin_bound)
  qed
  then have "(\<Sum>i<n. count_list (bin ((arr1 ! i) XOR (arr2 ! i))) CHR ''1'') \<le> (\<Sum>i<n. 32)"
    by (intro sum_mono) simp
  then show ?thesis by simp
qed

lemma calculate_similarity_arrays_range:
  assumes "fingerprint fp1 \<noteq> []" "fingerprint fp2 \<noteq> []"
    and "\<forall>x \<in> set (fingerprint fp1) \<union> set (fingerprint fp2). 0 \<le> x \<and> x < 2 ^ 32"
  shows "\<exists>s. calculate_similarity fp1 fp2 = Inr s \<and> 0 \<le> s \<and> s \<le> 1"
proof -
  let ?n = "min (length (fingerprint fp1)) (length (fingerprint fp2))"
  let ?d = "\<Sum>i<?n. count_list (bin ((fingerprint fp1 ! i) XOR (fingerprint fp2 ! i))) CHR ''1''"
  have pos: "0 < ?n" using assms by simp
  have "?d \<le> ?n * 32" using assms(3) by (rule different_bits_bound) simp_all
  then have "real ?d \<le> real (?n * 32)" by (rule of_nat_mono)
  then have le: "real ?d / real (?n * 32) \<le> 1" using pos by (simp add: divide_le_eq)
  have ge: "0 \<le> real ?d / real (?n * 32)" by (rule divide_nonneg_nonneg; rule of_nat_0_le_iff)
  show ?thesis
  proof (intro exI conjI)
    show "calculate_similarity fp1 fp2 = Inr (1 - real ?d / real (?n * 32))"
      by (rule calculate_similarity_arrays [OF assms(1,2)])
    show "0 \<le> 1 - real ?d / real (?n * 32)" using le by linarith
    show "1 - real ?d / real (?n * 32) \<le> 1" using ge by linarith
  qed
qed

lemma hash_differences_le:
  "length (filter (\<lambda>(c1, c2). c1 \<noteq> c2) (zip hash1 hash2)) \<le> length hash1"
  by (rule order_trans [OF length_filter_le]) simp

lemma calculate_similarity_fallback:
  assumes "fingerprint fp1 = [] \<or> fingerprint fp2 = []"
  shows "length (hash fp1) \<noteq> length (hash fp2) \<Longrightarrow> calculate_similarity fp1 fp2 = Inr 0"
    and "length (hash fp1) = length (hash fp2) \<Longrightarrow> hash fp1 \<noteq> [] \<Longrightarrow>
         calculate_similarity fp1 fp2 =
           Inr (1 - real (length (filter (\<lambda>(c1, c2). c1 \<noteq> c2) (zip (hash fp1) (hash fp2))))
                     / real (length (hash fp1)))"
    and "length (hash fp1) = length (hash fp2) \<Longrightarrow> hash fp1 = [] \<Longrightarrow>
         calculate_similarity fp1 fp2 = Inl ZeroDivisionError"
  using assms by (auto simp: calculate_similarity_def Let_def)


lemma bit_set_int_step:
  "{k. bit (n::int) k} = (if odd n then {0} else {}) \<union> Suc ` {k. bit (n div 2) k}"
proof (rule set_eqI)
  fix k show "k \<in> {k. bit n k} \<longleftrightarrow> k \<in> (if odd n then {0} else {}) \<union> Suc ` {k. bit (n div 2) k}"
    by (cases k) (auto simp: bit_0 bit_Suc image_iff)
qed

lemma finite_bit_set_int: "0 \<le> n \<Longrightarrow> finite {k. bit (n::int) k}"
proof (induction n rule: bin_digits.induct)
  case (1 n)
  show ?case
  proof (cases "n < 2")
    case True
    then have "n = 0 \<or> n = 1" using "1.prems" by auto
    then show ?thesis
      by (auto simp: bit_1_iff)
  next
    case False
    then have "finite {k. bit (n div 2) k}" using "1.IH" "1.prems" by simp
    then show ?thesis
      by (subst bit_set_int_step) simp
  qed
qed

lemma count_ones_bin_digits_popcount:
  "0 \<le> n \<Longrightarrow> count_list (bin_digits n) CHR ''1'' = card {k. bit n k}"
proof (induction n rule: bin_digits.induct)
  case (1 n)
  show ?case
  proof (cases "n < 2")
    case True
    then have "n = 0 \<or> n = 1" using "1.prems" by auto
    then show ?thesis
      by (auto simp: bin_digits.simps [of 0] bin_digits.simps [of 1] bit_1_iff)
  next
    case False
    have nn: "0 \<le> n div 2" using "1.prems" by simp
    have fin: "finite {k. bit (n div 2) k}" using nn by (rule finite_bit_set_int)
    have "card {k. bit n k} = (if odd n then 1 else 0) + card {k. bit (n div 2) k}"
      by (subst bit_set_int_step) (auto simp: card_insert_if card_image fin)
    then show ?thesis using False "1.IH" nn
      by (simp add: bin_digits.simps [of n] odd_iff_mod_2_eq_one)
  qed
qed

text \<open>
  For an integer that is not negative, the number of \<^verbatim>\<open>1\<close> characters of \<^verbatim>\<open>bin(x)\<close>
  is the number of set bits of \<open>x\<close>.
\<close>

lemma count_ones_bin_popcount:
  assumes "0 \<le> x"
  shows "count_list (bin x) CHR ''1'' = card {k. bit x k}"
  using assms by (simp add: bin_def count_ones_bin_digits_popcount)

text \<open>
  The sum of the \<^verbatim>\<open>1\<close> characters over the compared positions is the number of
  differing bits, for arrays of integers that are not negative.
\<close>

lemma different_bits_popcount:
  assumes "\<forall>x \<in> set arr1 \<union> set arr2. 0 \<le> x"
    and "n \<le> length arr1" "n \<le> length arr2"
  shows "(\<Sum>i<n. count_list (bin ((arr1 ! i) XOR (arr2 ! i))) CHR ''1'') =
         (\<Sum>i<n. card {k. bit ((arr1 ! i) XOR (arr2 ! i)) k})"
proof (rule sum.cong)
  fix i assume "i \<in> {..<n}"
  then have i: "i < length arr1" "i < length arr2" using assms(2,3) by auto
  have "0 \<le> arr1 ! i" "0 \<le> arr2 ! i" using assms(1) i by auto
  then have "0 \<le> (arr1 ! i) XOR (arr2 ! i)" by simp
  then show "count_list (bin ((arr1 ! i) XOR (arr2 ! i))) CHR ''1'' =
      card {k. bit ((arr1 ! i) XOR (arr2 ! i)) k}"
    by (rule count_ones_bin_popcount)
qed simp

text \<open>
  The similarity that the code computes for the arrays \<open>[5, 3]\<close> and \<open>[6, 12, 7]\<close>: the
  compared positions differ in 2 and in 4 bits, 6 of 64.
\<close>

lemma calculate_similarity_example:
  "calculate_similarity \<lparr>fingerprint = [5, 3], hash = [], timestamp = 0\<rparr>
       \<lparr>fingerprint = [6, 12, 7], hash = [], timestamp = 5\<rparr> = Inr (29 / 32)"
  by code_simp

text \<open>For a negative integer \<^verbatim>\<open>bin\<close> writes the digits of the absolute value.\<close>

lemma calculate_similarity_negative:
  "calculate_similarity \<lparr>fingerprint = [- 1], hash = [], timestamp = 0\<rparr>
       \<lparr>fingerprint = [0], hash = [], timestamp = 5\<rparr> = Inr (31 / 32)"
  by code_simp

text \<open>
  C7: for fingerprint dicts whose arrays are both non-empty and hold integers that are
  not negative (the fingerprinter writes unsigned 32-bit values), the similarity is
  \<open>1 - different_bits / total_bits\<close>, where \<open>different_bits\<close> adds the number of set
  bits of \<open>a[i] XOR b[i]\<close> over the first \<open>min (len a) (len b)\<close> positions and
  \<open>total_bits\<close> is 32 times that number of positions; hence a fingerprint is at
  similarity 1 to itself and the similarity is symmetric.
\<close>

theorem bit_packed_similarity:
  assumes "fingerprint fp1 \<noteq> []" and "fingerprint fp2 \<noteq> []"
    and "\<forall>x \<in> set (fingerprint fp1) \<union> set (fingerprint fp2). 0 \<le> x"
  shows "calculate_similarity fp1 fp2 =
           Inr (1 - real (\<Sum>i<min (length (fingerprint fp1)) (length (fingerprint fp2)).
                            card {k. bit ((fingerprint fp1 ! i) XOR (fingerprint fp2 ! i)) k})
                    / real (min (length (fingerprint fp1)) (length (fingerprint fp2)) * 32))
         \<and> calculate_similarity fp1 fp1 = Inr 1
         \<and> calculate_similarity fp1 fp2 = calculate_similarity fp2 fp1"
proof (intro conjI)
  have "(\<Sum>i<min (length (fingerprint fp1)) (length (fingerprint fp2)).
           count_list (bin ((fingerprint fp1 ! i) XOR (fingerprint fp2 ! i))) CHR ''1'') =
        (\<Sum>i<min (length (fingerprint fp1)) (length (fingerprint fp2)).
           card {k. bit ((fingerprint fp1 ! i) XOR (fingerprint fp2 ! i)) k})"
    using assms(3) by (rule different_bits_popcount) simp_all
  then show "calculate_similarity fp1 fp2 =
           Inr (1 - real (\<Sum>i<min (length (fingerprint fp1)) (length (fingerprint fp2)).
                            card {k. bit ((fingerprint fp1 ! i) XOR (fingerprint fp2 ! i)) k})
                    / real (min (length (fingerprint fp1)) (length (fingerprint fp2)) * 32))"
    using calculate_similarity_arrays [OF assms(1,2)] by simp
  show "calculate_similarity fp1 fp1 = Inr 1"
    using assms(1) by (rule calculate_similarity_self)
  show "calculate_similarity fp1 fp2 = calculate_similarity fp2 fp1"
    using assms(1,2) by (rule calculate_similarity_commute)
qed

theorem bit_packed_similarity_witness:
  "fingerprint \<lparr>fingerprint = [5, 3], hash = [], timestamp = 0\<rparr> \<noteq> []
   \<and> fingerprint \<lparr>fingerprint = [6, 12, 7], hash = [], timestamp = 5\<rparr> \<noteq> []
   \<and> list_all (\<lambda>x. (0::int) \<le> x) ([5, 3] @ [6, 12, 7])
   \<and> card {k. bit ((5::int) XOR 6) k} = 2 \<and> card {k. bit ((3::int) XOR 12) k} = 4
   \<and> calculate_similarity \<lparr>fingerprint = [5, 3], hash = [], timestamp = 0\<rparr>
         \<lparr>fingerprint = [6, 12, 7], hash = [], timestamp = 5\<rparr> = Inr (1 - (2 + 4) / (2 * 32))
   \<and> calculate_similarity \<lparr>fingerprint = [5, 3], hash = [], timestamp = 0\<rparr>
         \<lparr>fingerprint = [5, 3], hash = [], timestamp = 0\<rparr> = Inr 1
   \<and> calculate_similarity \<lparr>fingerprint = [6, 12, 7], hash = [], timestamp = 5\<rparr>
         \<lparr>fingerprint = [5, 3], hash = [], timestamp = 0\<rparr> = Inr (1 - (2 + 4) / (2 * 32))"
proof -
  let ?A = "\<lparr>fingerprint = [5, 3], hash = [], timestamp = 0\<rparr>"
  let ?B = "\<lparr>fingerprint = [6, 12, 7], hash = [], timestamp = 5\<rparr>"
  have a: "fingerprint ?A \<noteq> []" by simp
  have b: "fingerprint ?B \<noteq> []" by simp
  have c: "\<forall>x \<in> set (fingerprint ?A) \<union> set (fingerprint ?B). 0 \<le> x" by simp
  note r = bit_packed_similarity [OF a b c]
  have p3: "card {k. bit ((5::int) XOR 6) k} = 2"
    by (simp add: bit_set_int_step [of 3] bit_set_int_step [of 1] card_insert_if card_image)
  have p15: "card {k. bit ((3::int) XOR 12) k} = 4"
    by (simp add: bit_set_int_step [of 15] bit_set_int_step [of 7] bit_set_int_step [of 3]
          bit_set_int_step [of 1] card_insert_if card_image)
  have d: "(\<Sum>i<min (length (fingerprint ?A)) (length (fingerprint ?B)).
              card {k. bit ((fingerprint ?A ! i) XOR (fingerprint ?B ! i)) k}) = 2 + 4"
    using p3 p15 by (simp add: lessThan_Suc)
  have v: "calculate_similarity ?A ?B = Inr (1 - (2 + 4) / (2 * 32))"
    unfolding r [THEN conjunct1] d by simp
  have w: "calculate_similarity ?B ?A = Inr (1 - (2 + 4) / (2 * 32))"
    using r [THEN conjunct2, THEN conjunct2] v by simp
  have c': "list_all (\<lambda>x. (0::int) \<le> x) ([5, 3] @ [6, 12, 7])" by simp
  show ?thesis using a b c' p3 p15 v w r [THEN conjunct2, THEN conjunct1] by blast
qed

text \<open>
  C2, as the source has it: the similarity of two fingerprint dicts whose arrays are both
  non-empty and hold 32-bit values (the lengths may differ) is a value between 0 and 1,
  and no exception is raised. When one of the arrays is empty the function does not return 0:
  it compares the \<^verbatim>\<open>hash\<close> strings instead, giving 0 for hashes of different lengths
  and, for non-empty hashes of equal length, one minus the share of differing characters,
  again between 0 and 1.
\<close>

theorem calculate_similarity_range:
  "(fingerprint fp1 \<noteq> [] \<and> fingerprint fp2 \<noteq> []
      \<and> (\<forall>x \<in> set (fingerprint fp1) \<union> set (fingerprint fp2). 0 \<le> x \<and> x < 2 ^ 32)
     \<longrightarrow> (\<exists>s. calculate_similarity fp1 fp2 = Inr s \<and> 0 \<le> s \<and> s \<le> 1))
   \<and> ((fingerprint fp1 = [] \<or> fingerprint fp2 = []) \<and> length (hash fp1) \<noteq> length (hash fp2)
     \<longrightarrow> calculate_similarity fp1 fp2 = Inr 0)
   \<and> ((fingerprint fp1 = [] \<or> fingerprint fp2 = []) \<and> length (hash fp1) = length (hash fp2)
        \<and> hash fp1 \<noteq> []
     \<longrightarrow> (\<exists>s. calculate_similarity fp1 fp2 = Inr s
              \<and> s = 1 - real (length (filter (\<lambda>(c1, c2). c1 \<noteq> c2) (zip (hash fp1) (hash fp2))))
                        / real (length (hash fp1))
              \<and> 0 \<le> s \<and> s \<le> 1))"
proof (intro conjI impI)
  assume "fingerprint fp1 \<noteq> [] \<and> fingerprint fp2 \<noteq> []
      \<and> (\<forall>x \<in> set (fingerprint fp1) \<union> set (fingerprint fp2). 0 \<le> x \<and> x < 2 ^ 32)"
  then show "\<exists>s. calculate_similarity fp1 fp2 = Inr s \<and> 0 \<le> s \<and> s \<le> 1"
    by (intro calculate_similarity_arrays_range) simp_all
next
  assume "(fingerprint fp1 = [] \<or> fingerprint fp2 = []) \<and> length (hash fp1) \<noteq> length (hash fp2)"
  then have b1: "fingerprint fp1 = [] \<or> fingerprint fp2 = []"
    and b2: "length (hash fp1) \<noteq> length (hash fp2)"
    by blast+
  show "calculate_similarity fp1 fp2 = Inr 0"
    by (rule calculate_similarity_fallback(1) [OF b1 b2])
next
  let ?d = "length (filter (\<lambda>(c1, c2). c1 \<noteq> c2) (zip (hash fp1) (hash fp2)))"
  assume a: "(fingerprint fp1 = [] \<or> fingerprint fp2 = []) \<and> length (hash fp1) = length (hash fp2)
        \<and> hash fp1 \<noteq> []"
  then have a1: "fingerprint fp1 = [] \<or> fingerprint fp2 = []"
    and a2: "length (hash fp1) = length (hash fp2)" and a3: "hash fp1 \<noteq> []"
    by blast+
  have eq: "calculate_similarity fp1 fp2 = Inr (1 - real ?d / real (length (hash fp1)))"
    by (rule calculate_similarity_fallback(2) [OF a1 a2 a3])
  have pos: "0 < length (hash fp1)" using a3 by simp
  have "?d \<le> length (hash fp1)" by (rule hash_differences_le)
  then have "real ?d \<le> real (length (hash fp1))" by (rule of_nat_mono)
  then have le: "real ?d / real (length (hash fp1)) \<le> 1" using pos by (simp add: divide_le_eq)
  have ge: "0 \<le> real ?d / real (length (hash fp1))"
    by (rule divide_nonneg_nonneg; rule of_nat_0_le_iff)
  show "\<exists>s. calculate_similarity fp1 fp2 = Inr s
              \<and> s = 1 - real ?d / real (length (hash fp1)) \<and> 0 \<le> s \<and> s \<le> 1"
    using eq le ge by simp
qed

theorem calculate_similarity_range_witness:
  "(\<exists>s. calculate_similarity \<lparr>fingerprint = [5, 3], hash = '''', timestamp = 0\<rparr>
           \<lparr>fingerprint = [4], hash = '''', timestamp = 5\<rparr> = Inr s \<and> 0 \<le> s \<and> s \<le> 1)
   \<and> calculate_similarity \<lparr>fingerprint = [], hash = ''ab'', timestamp = 0\<rparr>
         \<lparr>fingerprint = [4], hash = ''abc'', timestamp = 5\<rparr> = Inr 0
   \<and> (\<exists>s. calculate_similarity \<lparr>fingerprint = [], hash = ''ab'', timestamp = 0\<rparr>
           \<lparr>fingerprint = [4], hash = ''ax'', timestamp = 5\<rparr> = Inr s \<and> s = 1 / 2)"
proof -
  let ?A = "\<lparr>fingerprint = [5, 3], hash = '''', timestamp = 0\<rparr>"
  let ?B = "\<lparr>fingerprint = [4], hash = '''', timestamp = 5\<rparr>"
  let ?C = "\<lparr>fingerprint = [], hash = ''ab'', timestamp = 0\<rparr>"
  let ?D = "\<lparr>fingerprint = [4], hash = ''abc'', timestamp = 5\<rparr>"
  let ?E = "\<lparr>fingerprint = [4], hash = ''ax'', timestamp = 5\<rparr>"
  have h1: "fingerprint ?A \<noteq> [] \<and> fingerprint ?B \<noteq> []
      \<and> (\<forall>x \<in> set (fingerprint ?A) \<union> set (fingerprint ?B). 0 \<le> x \<and> x < 2 ^ 32)"
    by simp
  have h2: "(fingerprint ?C = [] \<or> fingerprint ?D = []) \<and> length (hash ?C) \<noteq> length (hash ?D)"
    by simp
  have h3: "(fingerprint ?C = [] \<or> fingerprint ?E = []) \<and> length (hash ?C) = length (hash ?E)
        \<and> hash ?C \<noteq> []"
    by simp
  note r1 = calculate_similarity_range [of ?A ?B, THEN conjunct1, THEN mp, OF h1]
  note r2 = calculate_similarity_range [of ?C ?D, THEN conjunct2, THEN conjunct1, THEN mp, OF h2]
  note r3 = calculate_similarity_range [of ?C ?E, THEN conjunct2, THEN conjunct2, THEN mp, OF h3]
  from r3 have "\<exists>s. calculate_similarity ?C ?E = Inr s \<and> s = 1 / 2"
    by auto
  with r1 r2 show ?thesis by blast
qed

text \<open>
  The claim as the specification states it fails on two dicts without fingerprint arrays
  and with equal hashes: the result is 1, not 0.
\<close>

theorem empty_arrays_compare_hashes:
  "calculate_similarity \<lparr>fingerprint = [], hash = ''ab'', timestamp = 0\<rparr>
       \<lparr>fingerprint = [], hash = ''ab'', timestamp = 5\<rparr> = Inr 1
   \<and> calculate_similarity \<lparr>fingerprint = [], hash = ''ab'', timestamp = 0\<rparr>
       \<lparr>fingerprint = [], hash = ''ab'', timestamp = 5\<rparr> \<noteq> Inr 0"
  by (simp add: calculate_similarity_def)

text \<open>Without arrays and without hashes the division by the hash length raises.\<close>

lemma no_arrays_no_hashes_raises:
  "calculate_similarity \<lparr>fingerprint = [], hash = '''', timestamp = 0\<rparr>
       \<lparr>fingerprint = [], hash = '''', timestamp = 5\<rparr> = Inl ZeroDivisionError"
  by (simp add: calculate_similarity_def)

section \<open>Properties of the search for matches\<close>

lemma check_following_mono:
  "check_following clip video_fps t clip_idx best_idx offsets (c, s) = Inr (c', s') \<Longrightarrow> c \<le> c'"
proof (induction offsets arbitrary: c s)
  case Nil
  then show ?case by simp
next
  case (Cons offset offsets)
  then show ?case
    by (fastforce split: sum.splits if_splits)
qed

lemma clip_loop_Some:
  assumes "clip_loop v clip t m es = Inr (Some (match, clip'))"
  shows "\<exists>clip_idx clip_fp. (clip_idx, clip_fp) \<in> set es
           \<and> clip' = drop (clip_idx + fingerprint_matches match) clip
           \<and> clip_timestamp match = timestamp clip_fp
           \<and> video_id match = id_key v
           \<and> 1 \<le> fingerprint_matches match"
  using assms
proof (induction es)
  case Nil
  then show ?case by simp
next
  case (Cons e es)
  obtain clip_idx clip_fp where e: "e = (clip_idx, clip_fp)" by (cases e)
  show ?case
  proof (cases "clip_loop v clip t m (e # es) = clip_loop v clip t m es")
    case True
    then show ?thesis using Cons by auto
  next
    case False
    then have "clip' = drop (clip_idx + fingerprint_matches match) clip
           \<and> clip_timestamp match = timestamp clip_fp
           \<and> video_id match = id_key v
           \<and> 1 \<le> fingerprint_matches match"
      using Cons.prems unfolding e
      by (auto simp: Let_def py_slice_from_def split: sum.splits if_splits prod.splits
               dest: check_following_mono)
    then show ?thesis unfolding e by auto
  qed
qed

lemma video_loop_length:
  "video_loop vs clip t m ms = Inr ms' \<Longrightarrow> length ms' \<le> length ms + length vs"
proof (induction vs arbitrary: clip ms)
  case Nil
  then show ?case by simp
next
  case (Cons v vs)
  show ?case
  proof (cases "clip_loop v clip t m (enumerate 0 clip)")
    case (Inl e)
    then show ?thesis using Cons.prems by simp
  next
    case (Inr r)
    show ?thesis
    proof (cases r)
      case None
      then show ?thesis using Cons.prems Inr Cons.IH [of clip ms] by simp
    next
      case (Some p)
      obtain match clip' where p: "p = (match, clip')" by (cases p)
      show ?thesis using Cons.prems Inr Some p Cons.IH [of clip' "ms @ [match]"] by simp
    qed
  qed
qed

lemma find_matches_one_video:
  assumes "find_matches [v] clip t m = Inr ms"
  shows "length ms \<le> 1"
proof -
  obtain ms0 where a: "video_loop [v] clip t m [] = Inr ms0" and b: "ms = sort_by_confidence ms0"
    using assms by (auto simp: find_matches_def split: sum.splits)
  have "length ms0 \<le> 1" using video_loop_length [OF a] by simp
  then show ?thesis using b by (simp add: sort_by_confidence_def)
qed

lemma find_matches_no_videos: "find_matches [] clip t m = Inr []"
  by (simp add: find_matches_def sort_by_confidence_def)

text \<open>
  C1: with one video in the database, the search stops at the first recorded run: the
  \<^verbatim>\<open>break\<close> leaves the loop over the clip, and the rest of the clip is only matched
  against the videos that follow. For the clip \<open>spliced_clip\<close>, whose fingerprints 0-1 and
  3-4 are aligned with fingerprints 0-1 and 4-5 of \<open>video1\<close>, only the first run is reported.
\<close>

theorem one_video_first_run_only:
  "find_matches [video1] spliced_clip (85 / 100) 2 =
     Inr [\<lparr>video_id = ''video_1'', video_title = ''one'', clip_timestamp = 0,
           original_timestamp = 0, confidence = 1, fingerprint_matches = 2\<rparr>]"
  by code_simp

text \<open>
  C9: once a run is recorded for a video, the remaining videos are searched with the clip
  list cut to the fingerprints after that run; so the match reported for \<open>video2\<close>
  depends on whether \<open>video1\<close> precedes it in the database.
\<close>

theorem clip_truncated_between_videos:
  "(clip_loop v clip threshold m (enumerate 0 clip) = Inr (Some (match, clip')) \<longrightarrow>
      video_loop (v # vs) clip threshold m found =
        video_loop vs clip' threshold m (found @ [match])
      \<and> (\<exists>clip_idx < length clip.
            clip' = drop (clip_idx + fingerprint_matches match) clip
            \<and> clip_timestamp match = timestamp (clip ! clip_idx)))
   \<and> find_matches [video2] spliced_clip (85 / 100) 2 =
       Inr [\<lparr>video_id = ''video_2'', video_title = ''two'', clip_timestamp = 0,
             original_timestamp = 0, confidence = 1, fingerprint_matches = 2\<rparr>]
   \<and> find_matches [video1, video2] spliced_clip (85 / 100) 2 =
       Inr [\<lparr>video_id = ''video_1'', video_title = ''one'', clip_timestamp = 0,
             original_timestamp = 0, confidence = 1, fingerprint_matches = 2\<rparr>,
            \<lparr>video_id = ''video_2'', video_title = ''two'', clip_timestamp = 15,
             original_timestamp = 20, confidence = 1, fingerprint_matches = 2\<rparr>]"
proof (intro conjI impI)
  assume a: "clip_loop v clip threshold m (enumerate 0 clip) = Inr (Some (match, clip'))"
  then show "video_loop (v # vs) clip threshold m found =
        video_loop vs clip' threshold m (found @ [match])"
    by simp
  from clip_loop_Some [OF a]
  obtain clip_idx clip_fp where b: "(clip_idx, clip_fp) \<in> set (enumerate 0 clip)"
    and c: "clip' = drop (clip_idx + fingerprint_matches match) clip"
    and d: "clip_timestamp match = timestamp clip_fp"
    by blast
  from b have "clip_idx < length clip \<and> clip_fp = clip ! clip_idx"
    by (auto simp: in_set_enumerate_eq)
  with c d show "\<exists>clip_idx < length clip.
            clip' = drop (clip_idx + fingerprint_matches match) clip
            \<and> clip_timestamp match = timestamp (clip ! clip_idx)"
    by blast
next
  show "find_matches [video2] spliced_clip (85 / 100) 2 =
       Inr [\<lparr>video_id = ''video_2'', video_title = ''two'', clip_timestamp = 0,
             original_timestamp = 0, confidence = 1, fingerprint_matches = 2\<rparr>]"
    by code_simp
next
  show "find_matches [video1, video2] spliced_clip (85 / 100) 2 =
       Inr [\<lparr>video_id = ''video_1'', video_title = ''one'', clip_timestamp = 0,
             original_timestamp = 0, confidence = 1, fingerprint_matches = 2\<rparr>,
            \<lparr>video_id = ''video_2'', video_title = ''two'', clip_timestamp = 15,
             original_timestamp = 20, confidence = 1, fingerprint_matches = 2\<rparr>]"
    by code_simp
qed

theorem clip_truncated_between_videos_witness:
  "clip_loop video1 spliced_clip (85 / 100) 2 (enumerate 0 spliced_clip) =
     Inr (Some (\<lparr>video_id = ''video_1'', video_title = ''one'', clip_timestamp = 0,
                  original_timestamp = 0, confidence = 1, fingerprint_matches = 2\<rparr>,
                [at_time fpX 10, at_time fpE 15, at_time fpF 20]))
   \<and> video_loop [video1, video2] spliced_clip (85 / 100) 2 [] =
       video_loop [video2] [at_time fpX 10, at_time fpE 15, at_time fpF 20] (85 / 100) 2
         ([] @ [\<lparr>video_id = ''video_1'', video_title = ''one'', clip_timestamp = 0,
                  original_timestamp = 0, confidence = 1, fingerprint_matches = 2\<rparr>])"
proof -
  let ?m = "\<lparr>video_id = ''video_1'', video_title = ''one'', clip_timestamp = 0,
              original_timestamp = 0, confidence = 1, fingerprint_matches = 2\<rparr>"
  let ?rest = "[at_time fpX 10, at_time fpE 15, at_time fpF 20]"
  have h: "clip_loop video1 spliced_clip (85 / 100) 2 (enumerate 0 spliced_clip) =
             Inr (Some (?m, ?rest))"
    by code_simp
  from clip_truncated_between_videos
         [of video1 spliced_clip "85 / 100" 2 ?m ?rest "[video2]" "[]", THEN conjunct1, THEN mp, OF h]
  have "video_loop [video1, video2] spliced_clip (85 / 100) 2 [] =
          video_loop [video2] ?rest (85 / 100) 2 ([] @ [?m])"
    by (rule conjunct1)
  with h show ?thesis by (rule conjI)
qed

section \<open>Properties of the analysis of timestamps\<close>

lemma py_max_Max: "py_max xs = (if xs = [] then Inl ValueError else Inr (Max (set xs)))"
proof (cases xs)
  case Nil
  then show ?thesis by simp
next
  case (Cons x ys)
  have "Max (set (x # ys)) = fold max ys x" by (rule Max.set_eq_fold)
  then show ?thesis using Cons by simp
qed

lemma timestamp_gaps_set:
  "set (timestamp_gaps ts) = (\<lambda>i. ts ! (i + 1) - ts ! i) ` {..< length ts - 1}"
  by (auto simp: timestamp_gaps_def)

lemma timestamp_gaps_nonempty: "2 \<le> length ts \<Longrightarrow> timestamp_gaps ts \<noteq> []"
  by (simp add: timestamp_gaps_def)

lemma analyse_matches_many:
  assumes "2 \<le> length found"
  shows "analyse_matches found =
     Inr (if Max ((\<lambda>i. original_timestamp (found ! (i + 1)) - original_timestamp (found ! i))
                    ` {..< length found - 1}) > 300
          then Editing_detected else Appears_continuous)"
proof -
  let ?ts = "map original_timestamp found"
  have ne: "timestamp_gaps ?ts \<noteq> []" using assms by (intro timestamp_gaps_nonempty) simp
  have "set (timestamp_gaps ?ts) =
      (\<lambda>i. original_timestamp (found ! (i + 1)) - original_timestamp (found ! i))
         ` {..< length found - 1}"
    unfolding timestamp_gaps_set by (rule image_cong) auto
  then have "py_max (timestamp_gaps ?ts) =
      Inr (Max ((\<lambda>i. original_timestamp (found ! (i + 1)) - original_timestamp (found ! i))
         ` {..< length found - 1}))"
    using py_max_Max [of "timestamp_gaps ?ts"] ne by simp
  moreover have "found \<noteq> []" "length found > 1" using assms by auto
  ultimately show ?thesis by (simp add: analyse_matches_def)
qed

text \<open>
  C4, as the source has it, for a list of matches in the order of their clip timestamps:
  without a match the verdict is \<open>No_false_positive\<close> and with one match it is
  \<open>Partial_detection\<close>, not \<open>Appears_continuous\<close>; with two or more matches the verdict is
  \<open>Editing_detected\<close> exactly when the largest difference of consecutive original
  timestamps is above 300, and \<open>Appears_continuous\<close> otherwise. Original timestamps 200,
  205, 210 give \<open>Appears_continuous\<close> and 200, 800, 1400 give \<open>Editing_detected\<close>.
\<close>

theorem splice_analysis:
  assumes "sorted (map clip_timestamp found)"
  shows "(length found < 2 \<longrightarrow>
      analyse_matches found = Inr (if found = [] then No_false_positive else Partial_detection))
   \<and> (2 \<le> length found \<longrightarrow>
      analyse_matches found =
        Inr (if Max ((\<lambda>i. original_timestamp (found ! (i + 1)) - original_timestamp (found ! i))
                       ` {..< length found - 1}) > 300
             then Editing_detected else Appears_continuous))
   \<and> analyse_matches [match_at 0 200, match_at 5 205, match_at 10 210] = Inr Appears_continuous
   \<and> analyse_matches [match_at 0 200, match_at 5 800, match_at 10 1400] = Inr Editing_detected"
proof (intro conjI impI)
  assume "length found < 2"
  then have "found = [] \<or> length found = 1" by (cases found) auto
  then show "analyse_matches found =
      Inr (if found = [] then No_false_positive else Partial_detection)"
    by (auto simp: analyse_matches_def)
next
  assume "2 \<le> length found"
  then show "analyse_matches found =
        Inr (if Max ((\<lambda>i. original_timestamp (found ! (i + 1)) - original_timestamp (found ! i))
                       ` {..< length found - 1}) > 300
             then Editing_detected else Appears_continuous)"
    by (rule analyse_matches_many)
next
  show "analyse_matches [match_at 0 200, match_at 5 205, match_at 10 210] = Inr Appears_continuous"
    by code_simp
next
  show "analyse_matches [match_at 0 200, match_at 5 800, match_at 10 1400] = Inr Editing_detected"
    by code_simp
qed

theorem splice_analysis_witness:
  "sorted (map clip_timestamp [match_at 0 200])
   \<and> analyse_matches [match_at 0 200] = Inr Partial_detection
   \<and> sorted (map clip_timestamp [match_at 0 200, match_at 5 510])
   \<and> analyse_matches [match_at 0 200, match_at 5 510] = Inr Editing_detected
   \<and> sorted (map clip_timestamp [match_at 0 200, match_at 5 500])
   \<and> analyse_matches [match_at 0 200, match_at 5 500] = Inr Appears_continuous"
proof -
  have s1: "sorted (map clip_timestamp [match_at 0 200])" by (simp add: match_at_def)
  have s2: "sorted (map clip_timestamp [match_at 0 200, match_at 5 510])"
    by (simp add: match_at_def)
  have s3: "sorted (map clip_timestamp [match_at 0 200, match_at 5 500])"
    by (simp add: match_at_def)
  have h1: "length [match_at 0 200] < 2" by simp
  have h2: "2 \<le> length [match_at 0 200, match_at 5 510]" by simp
  have h3: "2 \<le> length [match_at 0 200, match_at 5 500]" by simp
  note r1 = splice_analysis [OF s1, THEN conjunct1, THEN mp, OF h1]
  note r2 = splice_analysis [OF s2, THEN conjunct2, THEN conjunct1, THEN mp, OF h2]
  note r3 = splice_analysis [OF s3, THEN conjunct2, THEN conjunct1, THEN mp, OF h3]
  have m2: "Max ((\<lambda>i. original_timestamp ([match_at 0 200, match_at 5 510] ! (i + 1))
                       - original_timestamp ([match_at 0 200, match_at 5 510] ! i))
                  ` {..< length [match_at 0 200, match_at 5 510] - 1}) = 310"
    by (simp add: match_at_def lessThan_Suc)
  have m3: "Max ((\<lambda>i. original_timestamp ([match_at 0 200, match_at 5 500] ! (i + 1))
                       - original_timestamp ([match_at 0 200, match_at 5 500] ! i))
                  ` {..< length [match_at 0 200, match_at 5 500] - 1}) = 300"
    by (simp add: match_at_def lessThan_Suc)
  from r1 have a: "analyse_matches [match_at 0 200] = Inr Partial_detection" by simp
  from r2 have b: "analyse_matches [match_at 0 200, match_at 5 510] = Inr Editing_detected"
    unfolding m2 by simp
  from r3 have c: "analyse_matches [match_at 0 200, match_at 5 500] = Inr Appears_continuous"
    unfolding m3 by simp
  from s1 a s2 b s3 c show ?thesis by blast
qed

text \<open>
  The claim as the specification states it fails on a single match, a list in the order
  of the clip with fewer than 2 matches.
\<close>

theorem single_match_is_partial_detection:
  "sorted (map clip_timestamp [match_at 0 200]) \<and> length [match_at 0 200] < 2
   \<and> analyse_matches [match_at 0 200] = Inr Partial_detection
   \<and> analyse_matches [match_at 0 200] \<noteq> Inr Appears_continuous"
  by (simp add: analyse_matches_def match_at_def)

text \<open>
  The order of the list matters, since a gap is a signed difference: two matches at the
  original timestamps 0 and 1020 are \<open>Editing_detected\<close> in the order of the clip and
  \<open>Appears_continuous\<close> in the opposite order.
\<close>

lemma signed_gaps_depend_on_order:
  "analyse_matches [match_at 0 0, match_at 15 1020] = Inr Editing_detected
   \<and> analyse_matches [match_at 15 1020, match_at 0 0] = Inr Appears_continuous"
  by code_simp

section \<open>Properties of the sliding window matcher\<close>

lemma window_loop_spec:
  assumes "window_loop cw vw idxs (bs, bp) = (bs', bp')"
  shows "bs \<le> bs' \<and> (\<forall>i \<in> set idxs. window_similarity cw vw i \<le> bs')
     \<and> ((bs' = bs \<and> bp' = bp)
        \<or> (bs < bs' \<and> (\<exists>k < length idxs. bp' = int (idxs ! k)
              \<and> window_similarity cw vw (idxs ! k) = bs'
              \<and> (\<forall>k' < k. window_similarity cw vw (idxs ! k') < bs'))))"
  using assms
proof (induction idxs arbitrary: bs bp)
  case Nil
  then show ?case by simp
next
  case (Cons i idxs)
  let ?s = "window_similarity cw vw i"
  show ?case
  proof (cases "?s > bs")
    case True
    then have r: "window_loop cw vw idxs (?s, int i) = (bs', bp')"
      using Cons.prems by (simp add: window_similarity_def Let_def)
    note ih = Cons.IH [OF r]
    from ih have le: "?s \<le> bs'" by simp
    from ih consider (same) "bs' = ?s" "bp' = int i"
      | (later) k where "?s < bs'" "k < length idxs" "bp' = int (idxs ! k)"
          "window_similarity cw vw (idxs ! k) = bs'"
          "\<forall>k' < k. window_similarity cw vw (idxs ! k') < bs'"
      by blast
    then have "bs < bs' \<and> (\<exists>k < length (i # idxs). bp' = int ((i # idxs) ! k)
              \<and> window_similarity cw vw ((i # idxs) ! k) = bs'
              \<and> (\<forall>k' < k. window_similarity cw vw ((i # idxs) ! k') < bs'))"
    proof cases
      case same
      then show ?thesis using True by (intro conjI exI [of _ 0]) simp_all
    next
      case later
      have "\<forall>k' < Suc k. window_similarity cw vw ((i # idxs) ! k') < bs'"
        using later(1,5) by (auto simp: less_Suc_eq_0_disj)
      then show ?thesis using later True by (intro conjI exI [of _ "Suc k"]) simp_all
    qed
    then show ?thesis using ih le True by auto
  next
    case False
    then have r: "window_loop cw vw idxs (bs, bp) = (bs', bp')"
      using Cons.prems by (simp add: window_similarity_def Let_def)
    note ih = Cons.IH [OF r]
    from ih have le: "bs \<le> bs'" by simp
    from ih consider (same) "bs' = bs" "bp' = bp"
      | (later) k where "bs < bs'" "k < length idxs" "bp' = int (idxs ! k)"
          "window_similarity cw vw (idxs ! k) = bs'"
          "\<forall>k' < k. window_similarity cw vw (idxs ! k') < bs'"
      by blast
    then have "(bs' = bs \<and> bp' = bp) \<or> (bs < bs' \<and> (\<exists>k < length (i # idxs). bp' = int ((i # idxs) ! k)
              \<and> window_similarity cw vw ((i # idxs) ! k) = bs'
              \<and> (\<forall>k' < k. window_similarity cw vw ((i # idxs) ! k') < bs')))"
    proof cases
      case same
      then show ?thesis by simp
    next
      case later
      have "\<forall>k' < Suc k. window_similarity cw vw ((i # idxs) ! k') < bs'"
        using later(1,5) False by (auto simp: less_Suc_eq_0_disj)
      then show ?thesis using later by (intro disjI2 conjI exI [of _ "Suc k"]) simp_all
    qed
    then show ?thesis using ih le False by auto
  qed
qed

lemma window_loop_upt:
  assumes "window_loop cw vw [0 ..< n] (0, - 1) = (bs', bp')"
  shows "0 \<le> bs' \<and> (\<forall>i < n. window_similarity cw vw i \<le> bs')
     \<and> ((bs' = 0 \<and> bp' = - 1)
        \<or> (0 < bs' \<and> 0 \<le> bp' \<and> nat bp' < n
              \<and> window_similarity cw vw (nat bp') = bs'
              \<and> (\<forall>i < nat bp'. window_similarity cw vw i < bs')))"
proof -
  note s = window_loop_spec [OF assms]
  from s have a: "0 \<le> bs'" and b: "\<forall>i < n. window_similarity cw vw i \<le> bs'" by auto
  from s consider (same) "bs' = 0" "bp' = - 1"
    | (found) k where "0 < bs'" "k < n" "bp' = int k" "window_similarity cw vw k = bs'"
        "\<forall>k' < k. window_similarity cw vw k' < bs'"
    by auto
  then have "(bs' = 0 \<and> bp' = - 1)
        \<or> (0 < bs' \<and> 0 \<le> bp' \<and> nat bp' < n
              \<and> window_similarity cw vw (nat bp') = bs'
              \<and> (\<forall>i < nat bp'. window_similarity cw vw i < bs'))"
  proof cases
    case same
    then show ?thesis by simp
  next
    case found
    then show ?thesis by simp
  qed
  with a b show ?thesis by blast
qed


lemma py_index_in_range:
  "0 \<le> i \<Longrightarrow> i < int (length xs) \<Longrightarrow> py_index xs i = Inr (xs ! nat i)"
  by (simp add: py_index_def)

text \<open>
  For a threshold above 0 the matcher raises no exception; a match it returns starts at
  the smallest offset whose window has the greatest similarity, that similarity reaches
  the threshold, and both times are read from entries of the word list at the indices
  of the match; when every window is below the threshold there is no match.
\<close>

lemma find_best_match_positive:
  fixes clip video :: transcription and t :: real
  assumes t: "0 < t"
  defines "cw \<equiv> split_into_words (normalized_text clip)"
    and "vw \<equiv> split_into_words (normalized_text video)"
  shows "\<exists>r. find_best_match t clip video = Inr r"
    and "find_best_match t clip video = Inr (Some m) \<Longrightarrow>
         cw \<noteq> [] \<and> length cw \<le> length vw
         \<and> 0 \<le> start_word_index m \<and> nat (start_word_index m) \<le> length vw - length cw
         \<and> end_word_index m = start_word_index m + int (length cw) - 1
         \<and> similarity m = window_similarity cw vw (nat (start_word_index m))
         \<and> (\<forall>i \<le> length vw - length cw. window_similarity cw vw i \<le> similarity m)
         \<and> (\<forall>i < nat (start_word_index m). window_similarity cw vw i < similarity m)
         \<and> t \<le> similarity m
         \<and> nat (end_word_index m) < length (words video)
         \<and> start_time m = word_start (words video ! nat (start_word_index m))
         \<and> end_time m = word_end (words video ! nat (end_word_index m))"
    and "(\<forall>i \<le> length vw - length cw. window_similarity cw vw i < t) \<Longrightarrow>
         find_best_match t clip video = Inr None"
proof -
  obtain bs bp where w: "window_loop cw vw [0 ..< length vw - length cw + 1] (0, - 1) = (bs, bp)"
    by (cases "window_loop cw vw [0 ..< length vw - length cw + 1] (0, - 1)")
  note u = window_loop_upt [OF w]
  have all: "\<forall>i \<le> length vw - length cw. window_similarity cw vw i \<le> bs"
    using u by (simp add: less_Suc_eq_le)
  have pos: "0 \<le> bp \<and> nat bp \<le> length vw - length cw
       \<and> window_similarity cw vw (nat bp) = bs
       \<and> (\<forall>i < nat bp. window_similarity cw vw i < bs)" if "t \<le> bs"
    using u that t by (auto simp: less_Suc_eq_le)
  let ?n = "int (length (words video))"
  have eq: "find_best_match t clip video =
      (if cw = [] \<or> vw = [] \<or> length cw > length vw then Inr None
       else if bs < t then Inr None
       else if bp \<ge> ?n \<or> bp + int (length cw) - 1 \<ge> ?n then Inr None
       else (case py_index (words video) bp of
               Inl e \<Rightarrow> Inl e
             | Inr first_word \<Rightarrow>
                (case py_index (words video) (bp + int (length cw) - 1) of
                   Inl e \<Rightarrow> Inl e
                 | Inr last_word \<Rightarrow>
                     Inr (Some
                       \<lparr>match_video_path = video_path video,
                        match_video_name = video_name video,
                        start_time = word_start first_word,
                        end_time = word_end last_word,
                        similarity = bs,
                        start_word_index = bp,
                        end_word_index = bp + int (length cw) - 1,
                        matched_text = join_space (py_slice vw bp (bp + int (length cw) - 1 + 1)),
                        clip_word_count = length cw,
                        match_duration = word_end last_word - word_start first_word\<rparr>))))"
    unfolding find_best_match_def Let_def cw_def [symmetric] vw_def [symmetric] w
    by (simp del: upt_Suc split: sum.splits)
  show "\<exists>r. find_best_match t clip video = Inr r"
  proof (cases "cw = [] \<or> vw = [] \<or> length cw > length vw \<or> bs < t
                \<or> bp \<ge> ?n \<or> bp + int (length cw) - 1 \<ge> ?n")
    case True
    then show ?thesis unfolding eq by auto
  next
    case False
    then have "t \<le> bs" by simp
    have qp: "1 \<le> int (length cw)" using False by (cases cw) auto
    from pos [OF \<open>t \<le> bs\<close>] False qp have "0 \<le> bp" "bp < ?n" "0 \<le> bp + int (length cw) - 1"
      "bp + int (length cw) - 1 < ?n"
      by auto
    then show ?thesis unfolding eq using False
      by (simp add: py_index_in_range)
  qed
  show "cw \<noteq> [] \<and> length cw \<le> length vw
         \<and> 0 \<le> start_word_index m \<and> nat (start_word_index m) \<le> length vw - length cw
         \<and> end_word_index m = start_word_index m + int (length cw) - 1
         \<and> similarity m = window_similarity cw vw (nat (start_word_index m))
         \<and> (\<forall>i \<le> length vw - length cw. window_similarity cw vw i \<le> similarity m)
         \<and> (\<forall>i < nat (start_word_index m). window_similarity cw vw i < similarity m)
         \<and> t \<le> similarity m
         \<and> nat (end_word_index m) < length (words video)
         \<and> start_time m = word_start (words video ! nat (start_word_index m))
         \<and> end_time m = word_end (words video ! nat (end_word_index m))"
    if some: "find_best_match t clip video = Inr (Some m)"
  proof -
    have c: "\<not> (cw = [] \<or> vw = [] \<or> length cw > length vw)" "\<not> bs < t"
      "\<not> (bp \<ge> ?n \<or> bp + int (length cw) - 1 \<ge> ?n)"
      using some unfolding eq by (auto split: if_splits)
    then have tb: "t \<le> bs" by simp
    note p = pos [OF tb]
    have qp: "1 \<le> int (length cw)" using c by (cases cw) auto
    have r: "0 \<le> bp" "bp < ?n" "0 \<le> bp + int (length cw) - 1" "bp + int (length cw) - 1 < ?n"
      using p c qp by auto
    have m: "m = \<lparr>match_video_path = video_path video,
                        match_video_name = video_name video,
                        start_time = word_start (words video ! nat bp),
                        end_time = word_end (words video ! nat (bp + int (length cw) - 1)),
                        similarity = bs,
                        start_word_index = bp,
                        end_word_index = bp + int (length cw) - 1,
                        matched_text = join_space (py_slice vw bp (bp + int (length cw) - 1 + 1)),
                        clip_word_count = length cw,
                        match_duration = word_end (words video ! nat (bp + int (length cw) - 1))
                                         - word_start (words video ! nat bp)\<rparr>"
      using some c r unfolding eq by (simp add: py_index_in_range)
    have "nat (bp + int (length cw) - 1) < length (words video)" using r by simp
    then show ?thesis using p c tb all unfolding m by simp
  qed
  show "find_best_match t clip video = Inr None"
    if "\<forall>i \<le> length vw - length cw. window_similarity cw vw i < t"
  proof (cases "bs < t")
    case True
    then show ?thesis unfolding eq by simp
  next
    case False
    then have tb: "t \<le> bs" by simp
    note p = pos [OF tb]
    from p have "nat bp \<le> length vw - length cw" by simp
    with that have "window_similarity cw vw (nat bp) < t" by blast
    with p tb have False by simp
    then show ?thesis ..
  qed
qed

text \<open>
  The example of the specification: the reference words a b c d e and the query c d at
  threshold 0.8 give a match at the word offsets 2 to 3 with similarity 1.
\<close>

lemma localizer_example:
  "find_best_match (8 / 10) (transcription_of ''clip.mp4'' ''c d'' (timed_words [''c'', ''d'']))
     (transcription_of ''v.mp4'' ''a b c d e'' (timed_words [''a'', ''b'', ''c'', ''d'', ''e''])) =
   Inr (Some \<lparr>match_video_path = ''download/v.mp4'', match_video_name = ''v.mp4'',
     start_time = 2, end_time = 7 / 2, similarity = 1, start_word_index = 2, end_word_index = 3,
     matched_text = ''c d'', clip_word_count = 2, match_duration = 3 / 2\<rparr>)"
  by code_simp

text \<open>
  C6: at threshold 0.0, with the query word x and the reference word y, the only window
  is at offset 0 and has similarity 0, the greatest similarity; the position stays at
  its initial value and the match returned is at offset -1, with the times of the last
  entry of the word list.
\<close>

theorem best_position_unset_at_threshold_zero:
  "split_into_words ''x'' = [''x''] \<and> split_into_words ''y'' = [''y'']
   \<and> window_similarity [''x''] [''y''] 0 = 0
   \<and> find_best_match 0 (transcription_of ''clip.mp4'' ''x'' (timed_words [''x'']))
       (transcription_of ''v.mp4'' ''y'' (timed_words [''y''])) =
     Inr (Some \<lparr>match_video_path = ''download/v.mp4'', match_video_name = ''v.mp4'',
       start_time = 0, end_time = 1 / 2, similarity = 0, start_word_index = - 1,
       end_word_index = - 1, matched_text = '''', clip_word_count = 1,
       match_duration = 1 / 2\<rparr>)"
  by code_simp

text \<open>
  C10: with the same texts and an empty word list of the reference, the check of the
  indices lets -1 pass and reading the word list raises \<open>IndexError\<close>.
\<close>

theorem index_error_at_threshold_zero:
  "find_best_match 0 (transcription_of ''clip.mp4'' ''x'' (timed_words [''x'']))
     (transcription_of ''v.mp4'' ''y'' []) = Inl IndexError"
  by code_simp

section \<open>Properties of the verification endpoint\<close>

text \<open>The result of \<^verbatim>\<open>find_best_match\<close> from the state in which the loop ends.\<close>

lemma find_best_match_unfold:
  fixes clip video :: transcription
  defines "cw \<equiv> split_into_words (normalized_text clip)"
    and "vw \<equiv> split_into_words (normalized_text video)"
  assumes w: "window_loop cw vw [0 ..< length vw - length cw + 1] (0, - 1) = (bs, bp)"
  shows "find_best_match t clip video =
      (if cw = [] \<or> vw = [] \<or> length cw > length vw then Inr None
       else if bs < t then Inr None
       else if bp \<ge> int (length (words video)) \<or> bp + int (length cw) - 1 \<ge> int (length (words video))
       then Inr None
       else (case py_index (words video) bp of
               Inl e \<Rightarrow> Inl e
             | Inr first_word \<Rightarrow>
                (case py_index (words video) (bp + int (length cw) - 1) of
                   Inl e \<Rightarrow> Inl e
                 | Inr last_word \<Rightarrow>
                     Inr (Some
                       \<lparr>match_video_path = video_path video,
                        match_video_name = video_name video,
                        start_time = word_start first_word,
                        end_time = word_end last_word,
                        similarity = bs,
                        start_word_index = bp,
                        end_word_index = bp + int (length cw) - 1,
                        matched_text = join_space (py_slice vw bp (bp + int (length cw) - 1 + 1)),
                        clip_word_count = length cw,
                        match_duration = word_end last_word - word_start first_word\<rparr>))))"
  unfolding find_best_match_def Let_def cw_def [symmetric] vw_def [symmetric] w
  by (simp del: upt_Suc split: sum.splits)

lemma find_best_match_threshold:
  assumes "find_best_match t clip video = Inr (Some m)"
  shows "t \<le> similarity m"
proof -
  let ?cw = "split_into_words (normalized_text clip)"
  let ?vw = "split_into_words (normalized_text video)"
  obtain bs bp where w: "window_loop ?cw ?vw [0 ..< length ?vw - length ?cw + 1] (0, - 1) = (bs, bp)"
    by (cases "window_loop ?cw ?vw [0 ..< length ?vw - length ?cw + 1] (0, - 1)")
  note eq = find_best_match_unfold [OF w, of t]
  have a: "\<not> bs < t" using assms unfolding eq by (auto split: if_splits)
  have "similarity m = bs" using assms unfolding eq
    by (auto split: if_splits sum.splits)
  then show ?thesis using a by simp
qed


lemma search_loop_similarity:
  "search_loop t clip vts ms = Inr ms' \<Longrightarrow> \<forall>m \<in> set ms. t \<le> similarity m \<Longrightarrow>
   \<forall>m \<in> set ms'. t \<le> similarity m"
proof (induction vts arbitrary: ms)
  case Nil
  then show ?case by simp
next
  case (Cons vt vts)
  show ?case
  proof (cases "find_best_match t clip vt")
    case (Inl e)
    then show ?thesis using Cons.prems by simp
  next
    case (Inr r)
    show ?thesis
    proof (cases r)
      case None
      then show ?thesis using Cons.prems Inr Cons.IH [of ms] by simp
    next
      case (Some m)
      have "t \<le> similarity m" using Inr Some by (intro find_best_match_threshold) simp
      then have "\<forall>x \<in> set (ms @ [m]). t \<le> similarity x" using Cons.prems(2) by simp
      then show ?thesis using Cons.prems(1) Inr Some Cons.IH [of "ms @ [m]"] by simp
    qed
  qed
qed

lemma search_loop_empty:
  "search_loop t clip vts ms = Inr ms' \<Longrightarrow>
   ms' = [] \<longleftrightarrow> ms = [] \<and> (\<forall>vt \<in> set vts. find_best_match t clip vt = Inr None)"
proof (induction vts arbitrary: ms)
  case Nil
  then show ?case by auto
next
  case (Cons vt vts)
  show ?case
  proof (cases "find_best_match t clip vt")
    case (Inl e)
    then show ?thesis using Cons.prems by simp
  next
    case (Inr r)
    show ?thesis
    proof (cases r)
      case None
      then show ?thesis using Cons.prems Inr Cons.IH [of ms] by simp
    next
      case (Some m)
      then show ?thesis using Cons.prems Inr Cons.IH [of "ms @ [m]"] by simp
    qed
  qed
qed

lemma search_all_videos_result:
  assumes "search_all_videos t clip vts = Inr found"
  shows "\<forall>m \<in> set found. t \<le> similarity m"
    and "found = [] \<longleftrightarrow> (\<forall>vt \<in> set vts. find_best_match t clip vt = Inr None)"
proof -
  obtain ms where l: "search_loop t clip vts [] = Inr ms"
    and f: "found = sort_key (\<lambda>x. - similarity x) ms"
    using assms by (auto simp: search_all_videos_def split: sum.splits)
  have s: "set found = set ms" using f by simp
  show "\<forall>m \<in> set found. t \<le> similarity m"
    using search_loop_similarity [OF l] s by simp
  have "found = [] \<longleftrightarrow> ms = []" using s by (metis set_empty)
  then show "found = [] \<longleftrightarrow> (\<forall>vt \<in> set vts. find_best_match t clip vt = Inr None)"
    using search_loop_empty [OF l] by simp
qed


lemma verify_clip_Inr:
  assumes "verify_clip env temp_file_path = Inr r"
  shows "\<exists>clip. transcribe_clip env temp_file_path = Inr clip
     \<and> get_available_videos env \<noteq> []
     \<and> transcribe_videos env (get_available_videos env) \<noteq> []
     \<and> search_all_videos TEXT_THRESHOLD clip (transcribe_videos env (get_available_videos env))
         = Inr (matches r)
     \<and> best_match r = (if matches r \<noteq> [] then Some (hd (matches r)) else None)
     \<and> (speaker_verification r, verification_type r) =
         (if matches r = [] then (None, ''not_verified'')
          else speaker_step env temp_file_path (hd (matches r)))
     \<and> verified r = (verification_type r = ''full'')"
proof -
  obtain clip where tc: "transcribe_clip env temp_file_path = Inr clip"
    using assms by (cases "transcribe_clip env temp_file_path") (simp_all add: verify_clip_def)
  have vf: "get_available_videos env \<noteq> []"
    using assms tc by (auto simp: verify_clip_def Let_def)
  let ?vts = "transcribe_videos env (get_available_videos env)"
  have vt: "?vts \<noteq> []"
    using assms tc vf by (auto simp: verify_clip_def Let_def)
  obtain found where s: "search_all_videos TEXT_THRESHOLD clip ?vts = Inr found"
    using assms tc vf vt
    by (cases "search_all_videos TEXT_THRESHOLD clip ?vts") (simp_all add: verify_clip_def Let_def)
  obtain speaker vtype where st:
    "(if found = [] then (None, ''not_verified'')
      else speaker_step env temp_file_path (hd found)) = (speaker, vtype)"
    by (cases "if found = [] then (None, ''not_verified'')
      else speaker_step env temp_file_path (hd found)") simp
  have "r = \<lparr>verified = (vtype = ''full''),
             verification_type = vtype,
             matches = found,
             best_match = (if found \<noteq> [] then Some (hd found) else None),
             speaker_verification = speaker,
             clip_info_word_count = word_count clip,
             clip_info_duration = duration clip,
             clip_info_text = full_text clip,
             text_threshold = TEXT_THRESHOLD,
             speaker_threshold = SPEAKER_THRESHOLD\<rparr>"
    using assms tc vf vt s st
    by (cases "found = []") (auto simp: verify_clip_def Let_def)
  then show ?thesis using tc vf vt s st by (auto split: if_splits)
qed


lemma search_loop_total:
  assumes "0 < t"
  shows "\<exists>ms'. search_loop t clip vts ms = Inr ms'"
proof (induction vts arbitrary: ms)
  case Nil
  show ?case by simp
next
  case (Cons vt vts)
  obtain r where "find_best_match t clip vt = Inr r"
    using find_best_match_positive(1) [OF assms] by blast
  then show ?case using Cons.IH by (cases r) simp_all
qed

lemma search_all_videos_total:
  "0 < t \<Longrightarrow> \<exists>found. search_all_videos t clip vts = Inr found"
  using search_loop_total [of t clip vts "[]"] by (auto simp: search_all_videos_def)

lemma verify_speaker_verified:
  assumes "verify_speaker env cp cs cd op os od th = Inr sr"
  shows "sr_verified sr = (th \<le> sr_similarity sr)" and "sr_threshold sr = th"
  using assms by (auto simp: verify_speaker_def Let_def split: sum.splits)

lemma verify_clip_returns:
  assumes tc: "transcribe_clip env temp_file_path = Inr clip"
    and vf: "get_available_videos env \<noteq> []"
    and vt: "transcribe_videos env (get_available_videos env) \<noteq> []"
  shows "\<exists>r. verify_clip env temp_file_path = Inr r"
proof -
  have "0 < TEXT_THRESHOLD" by (simp add: TEXT_THRESHOLD_def)
  then obtain found where
    s: "search_all_videos TEXT_THRESHOLD clip (transcribe_videos env (get_available_videos env))
          = Inr found"
    using search_all_videos_total by blast
  show ?thesis using tc vf vt s
    by (simp add: verify_clip_def Let_def split: prod.splits)
qed


lemma speaker_step_type:
  "snd (speaker_step env temp_file_path bm) =
     (case verify_speaker env temp_file_path 0 (min 10 (end_time bm - start_time bm))
             (VIDEO_DIRECTORY @ ''/'' @ match_video_name bm) (start_time bm)
             (min 10 (end_time bm - start_time bm)) SPEAKER_THRESHOLD of
        Inr sr \<Rightarrow> if SPEAKER_THRESHOLD \<le> sr_similarity sr then ''full'' else ''content_only''
      | Inl e \<Rightarrow> ''content_only'')"
proof (cases "verify_speaker env temp_file_path 0 (min 10 (end_time bm - start_time bm))
             (VIDEO_DIRECTORY @ ''/'' @ match_video_name bm) (start_time bm)
             (min 10 (end_time bm - start_time bm)) SPEAKER_THRESHOLD")
  case (Inl e)
  then show ?thesis by (simp add: speaker_step_def Let_def)
next
  case (Inr sr)
  then show ?thesis using verify_speaker_verified(1) [OF Inr]
    by (simp add: speaker_step_def Let_def)
qed

text \<open>
  C8: a response of the endpoint has one of the three verification types. It is
  \<^verbatim>\<open>not_verified\<close> exactly when the list of matches is empty, that is when the matcher at
  the text threshold returns no match for any transcribed video; every match in the list
  has a similarity of at least the text threshold. With a match, the type is \<^verbatim>\<open>full\<close>
  when the speaker similarity computed for the best match is at least the speaker
  threshold and \<^verbatim>\<open>content_only\<close> when it is below (or when the comparison raised);
  \<^verbatim>\<open>verified\<close> is set exactly for \<^verbatim>\<open>full\<close>. A response is given whenever the clip
  and at least one video are transcribed.
\<close>

theorem verdict_states:
  "(transcribe_clip env temp_file_path = Inr clip \<and> get_available_videos env \<noteq> []
      \<and> transcribe_videos env (get_available_videos env) \<noteq> []
     \<longrightarrow> (\<exists>res. verify_clip env temp_file_path = Inr res))
   \<and> (verify_clip env temp_file_path = Inr r \<longrightarrow>
      verification_type r \<in> {''not_verified'', ''full'', ''content_only''}
      \<and> verified r = (verification_type r = ''full'')
      \<and> (verification_type r = ''not_verified'' \<longleftrightarrow> matches r = [])
      \<and> (\<forall>m \<in> set (matches r). TEXT_THRESHOLD \<le> similarity m)
      \<and> (\<exists>c. transcribe_clip env temp_file_path = Inr c
            \<and> (matches r = [] \<longleftrightarrow>
                 (\<forall>vt \<in> set (transcribe_videos env (get_available_videos env)).
                    find_best_match TEXT_THRESHOLD c vt = Inr None)))
      \<and> (matches r \<noteq> [] \<longrightarrow>
           (case verify_speaker env temp_file_path 0
                   (min 10 (end_time (hd (matches r)) - start_time (hd (matches r))))
                   (VIDEO_DIRECTORY @ ''/'' @ match_video_name (hd (matches r)))
                   (start_time (hd (matches r)))
                   (min 10 (end_time (hd (matches r)) - start_time (hd (matches r))))
                   SPEAKER_THRESHOLD of
              Inr sr \<Rightarrow> verification_type r =
                          (if SPEAKER_THRESHOLD \<le> sr_similarity sr then ''full''
                           else ''content_only'')
            | Inl e \<Rightarrow> verification_type r = ''content_only'')))"
proof (rule conjI; rule impI)
  assume "transcribe_clip env temp_file_path = Inr clip \<and> get_available_videos env \<noteq> []
      \<and> transcribe_videos env (get_available_videos env) \<noteq> []"
  then show "\<exists>res. verify_clip env temp_file_path = Inr res"
    using verify_clip_returns [of env temp_file_path clip] by blast
next
  assume a: "verify_clip env temp_file_path = Inr r"
  obtain c where tc: "transcribe_clip env temp_file_path = Inr c"
    and s: "search_all_videos TEXT_THRESHOLD c
              (transcribe_videos env (get_available_videos env)) = Inr (matches r)"
    and st: "(speaker_verification r, verification_type r) =
         (if matches r = [] then (None, ''not_verified'')
          else speaker_step env temp_file_path (hd (matches r)))"
    and v: "verified r = (verification_type r = ''full'')"
    using verify_clip_Inr [OF a] by blast
  note sr = search_all_videos_result [OF s]
  let ?v = "verify_speaker env temp_file_path 0
                 (min 10 (end_time (hd (matches r)) - start_time (hd (matches r))))
                 (VIDEO_DIRECTORY @ ''/'' @ match_video_name (hd (matches r)))
                 (start_time (hd (matches r)))
                 (min 10 (end_time (hd (matches r)) - start_time (hd (matches r))))
                 SPEAKER_THRESHOLD"
  have sp: "case ?v of
            Inr sr \<Rightarrow> verification_type r =
                        (if SPEAKER_THRESHOLD \<le> sr_similarity sr then ''full''
                         else ''content_only'')
          | Inl e \<Rightarrow> verification_type r = ''content_only''"
    if ne: "matches r \<noteq> []"
  proof -
    have "verification_type r = snd (speaker_step env temp_file_path (hd (matches r)))"
      using st ne by (metis snd_conv)
    then show ?thesis unfolding speaker_step_type by (cases ?v) simp_all
  qed
  have ty: "verification_type r \<in> {''full'', ''content_only''}" if ne: "matches r \<noteq> []"
    using sp [OF ne] by (cases ?v) (auto split: if_splits)
  have t0: "verification_type r = ''not_verified''" if "matches r = []"
    using st that by simp
  have c1: "verification_type r \<in> {''not_verified'', ''full'', ''content_only''}"
    using ty t0 by (cases "matches r = []") auto
  have c3: "verification_type r = ''not_verified'' \<longleftrightarrow> matches r = []"
    using ty t0 by (cases "matches r = []") auto
  show "verification_type r \<in> {''not_verified'', ''full'', ''content_only''}
      \<and> verified r = (verification_type r = ''full'')
      \<and> (verification_type r = ''not_verified'' \<longleftrightarrow> matches r = [])
      \<and> (\<forall>m \<in> set (matches r). TEXT_THRESHOLD \<le> similarity m)
      \<and> (\<exists>c. transcribe_clip env temp_file_path = Inr c
            \<and> (matches r = [] \<longleftrightarrow>
                 (\<forall>vt \<in> set (transcribe_videos env (get_available_videos env)).
                    find_best_match TEXT_THRESHOLD c vt = Inr None)))
      \<and> (matches r \<noteq> [] \<longrightarrow>
           (case ?v of
              Inr sr \<Rightarrow> verification_type r =
                          (if SPEAKER_THRESHOLD \<le> sr_similarity sr then ''full''
                           else ''content_only'')
            | Inl e \<Rightarrow> verification_type r = ''content_only''))"
    using c1 v c3 sr tc sp by blast
qed

theorem verdict_states_witness:
  "(\<exists>r. verify_clip (example_providers ''x y'' [''v.mp4''] (Inr [1, 0])) ''upload.mp4'' = Inr r
      \<and> matches r = [] \<and> verification_type r = ''not_verified'' \<and> \<not> verified r)
   \<and> (\<exists>r. verify_clip (example_providers ''c d'' [''v.mp4''] (Inr [1, 0])) ''upload.mp4'' = Inr r
      \<and> matches r \<noteq> [] \<and> verification_type r = ''full'' \<and> verified r)
   \<and> (\<exists>r. verify_clip (example_providers ''c d'' [''v.mp4''] (Inr [7 / 10, 0])) ''upload.mp4'' = Inr r
      \<and> matches r \<noteq> [] \<and> verification_type r = ''full'' \<and> verified r)
   \<and> (\<exists>r. verify_clip (example_providers ''c d'' [''v.mp4''] (Inr [0, 1])) ''upload.mp4'' = Inr r
      \<and> matches r \<noteq> [] \<and> verification_type r = ''content_only'' \<and> \<not> verified r)"
proof -
  let ?m = "\<lparr>match_video_path = ''download/v.mp4'', match_video_name = ''v.mp4'',
     start_time = 2, end_time = 7 / 2, similarity = 1, start_word_index = 2, end_word_index = 3,
     matched_text = ''c d'', clip_word_count = 2, match_duration = 3 / 2\<rparr>"
  let ?r0 = "\<lparr>verified = False, verification_type = ''not_verified'', matches = [],
     best_match = None, speaker_verification = None,
     clip_info_word_count = 2, clip_info_duration = 2, clip_info_text = ''x y'',
     text_threshold = 80 / 100, speaker_threshold = 85 / 100\<rparr>"
  let ?r1 = "\<lparr>verified = True, verification_type = ''full'', matches = [?m],
     best_match = Some ?m,
     speaker_verification = Some \<lparr>sv_verified = True, sv_similarity = Some 1,
       sv_threshold = Some (85 / 100), sv_error = None, sv_message = ''Same speaker''\<rparr>,
     clip_info_word_count = 2, clip_info_duration = 2, clip_info_text = ''c d'',
     text_threshold = 80 / 100, speaker_threshold = 85 / 100\<rparr>"
  let ?r2 = "\<lparr>verified = True, verification_type = ''full'', matches = [?m],
     best_match = Some ?m,
     speaker_verification = Some \<lparr>sv_verified = True, sv_similarity = Some (85 / 100),
       sv_threshold = Some (85 / 100), sv_error = None, sv_message = ''Same speaker''\<rparr>,
     clip_info_word_count = 2, clip_info_duration = 2, clip_info_text = ''c d'',
     text_threshold = 80 / 100, speaker_threshold = 85 / 100\<rparr>"
  let ?r3 = "\<lparr>verified = False, verification_type = ''content_only'', matches = [?m],
     best_match = Some ?m,
     speaker_verification = Some \<lparr>sv_verified = False, sv_similarity = Some (1 / 2),
       sv_threshold = Some (85 / 100), sv_error = None,
       sv_message = ''Different speaker - possible deepfake''\<rparr>,
     clip_info_word_count = 2, clip_info_duration = 2, clip_info_text = ''c d'',
     text_threshold = 80 / 100, speaker_threshold = 85 / 100\<rparr>"
  have h0: "verify_clip (example_providers ''x y'' [''v.mp4''] (Inr [1, 0])) ''upload.mp4'' = Inr ?r0"
    by code_simp
  have h1: "verify_clip (example_providers ''c d'' [''v.mp4''] (Inr [1, 0])) ''upload.mp4'' = Inr ?r1"
    by code_simp
  have h2: "verify_clip (example_providers ''c d'' [''v.mp4''] (Inr [7 / 10, 0])) ''upload.mp4'' = Inr ?r2"
    by code_simp
  have h3: "verify_clip (example_providers ''c d'' [''v.mp4''] (Inr [0, 1])) ''upload.mp4'' = Inr ?r3"
    by code_simp
  note t0 = verdict_states [THEN conjunct2, THEN mp, OF h0]
  note t1 = verdict_states [THEN conjunct2, THEN mp, OF h1]
  note t2 = verdict_states [THEN conjunct2, THEN mp, OF h2]
  note t3 = verdict_states [THEN conjunct2, THEN mp, OF h3]
  from t0 t1 t2 t3 h0 h1 h2 h3 show ?thesis by simp
qed

text \<open>
  C5, as the source has it. In the endpoint, when a match was found and the speaker
  verification of the best match raises, the request succeeds with the type
  \<^verbatim>\<open>content_only\<close> and the dict \<^verbatim>\<open>speaker_verification\<close> holds the error and the message
  \<^verbatim>\<open>Speaker verification failed\<close>. In the hybrid verifier, when no pair of embeddings was
  found, the result is not verified, with confidence \<^verbatim>\<open>low\<close> and a speaker similarity of
  0: the same result as for a measured similarity of 0, and the warning is printed only
  when \<^verbatim>\<open>verbose\<close> is set.
\<close>

theorem speaker_failure_degrades:
  "(transcribe_clip env temp_file_path = Inr clip
     \<and> search_all_videos TEXT_THRESHOLD clip
           (transcribe_videos env (get_available_videos env)) = Inr (bm # rest)
     \<and> verify_speaker env temp_file_path 0 (min 10 (end_time bm - start_time bm))
           (VIDEO_DIRECTORY @ ''/'' @ match_video_name bm) (start_time bm)
           (min 10 (end_time bm - start_time bm)) SPEAKER_THRESHOLD = Inl e
     \<longrightarrow> verify_clip env temp_file_path =
           Inr \<lparr>verified = False, verification_type = ''content_only'', matches = bm # rest,
                best_match = Some bm,
                speaker_verification =
                  Some \<lparr>sv_verified = False, sv_similarity = None, sv_threshold = None,
                        sv_error = Some e, sv_message = ''Speaker verification failed''\<rparr>,
                clip_info_word_count = word_count clip, clip_info_duration = duration clip,
                clip_info_text = full_text clip, text_threshold = TEXT_THRESHOLD,
                speaker_threshold = SPEAKER_THRESHOLD\<rparr>)
   \<and> hybrid_verdict [] c ts =
         \<lparr>hybrid_verified = False, hybrid_confidence = ''low'', speaker_match_similarity = 0,
          speaker_match_verified = False,
          speaker_match_threshold = SPEAKER_SIMILARITY_THRESHOLD,
          hybrid_explanation = (if c = ''high'' then Speaker_failed else Weak_match)\<rparr>
   \<and> hybrid_verdict [] c ts = hybrid_verdict [0] c ts
   \<and> (no_embeddings_warning verbose [] \<longleftrightarrow> verbose)"
proof -
  have api: "verify_clip env temp_file_path =
           Inr \<lparr>verified = False, verification_type = ''content_only'', matches = bm # rest,
                best_match = Some bm,
                speaker_verification =
                  Some \<lparr>sv_verified = False, sv_similarity = None, sv_threshold = None,
                        sv_error = Some e, sv_message = ''Speaker verification failed''\<rparr>,
                clip_info_word_count = word_count clip, clip_info_duration = duration clip,
                clip_info_text = full_text clip, text_threshold = TEXT_THRESHOLD,
                speaker_threshold = SPEAKER_THRESHOLD\<rparr>"
    if tc: "transcribe_clip env temp_file_path = Inr clip"
      and s: "search_all_videos TEXT_THRESHOLD clip
           (transcribe_videos env (get_available_videos env)) = Inr (bm # rest)"
      and vs: "verify_speaker env temp_file_path 0 (min 10 (end_time bm - start_time bm))
           (VIDEO_DIRECTORY @ ''/'' @ match_video_name bm) (start_time bm)
           (min 10 (end_time bm - start_time bm)) SPEAKER_THRESHOLD = Inl e"
  proof -
    have vt: "transcribe_videos env (get_available_videos env) \<noteq> []"
    proof
      assume "transcribe_videos env (get_available_videos env) = []"
      then show False using s by (simp add: search_all_videos_def)
    qed
    then have vf: "get_available_videos env \<noteq> []" by auto
    have sp: "speaker_step env temp_file_path bm =
        (Some \<lparr>sv_verified = False, sv_similarity = None, sv_threshold = None,
               sv_error = Some e, sv_message = ''Speaker verification failed''\<rparr>,
         ''content_only'')"
      using vs by (simp add: speaker_step_def Let_def)
    show ?thesis using tc vf vt s sp by (simp add: verify_clip_def Let_def)
  qed
  have h1: "hybrid_verdict [] c ts =
         \<lparr>hybrid_verified = False, hybrid_confidence = ''low'', speaker_match_similarity = 0,
          speaker_match_verified = False,
          speaker_match_threshold = SPEAKER_SIMILARITY_THRESHOLD,
          hybrid_explanation = (if c = ''high'' then Speaker_failed else Weak_match)\<rparr>"
    by (simp add: hybrid_verdict_def Let_def)
  have h2: "hybrid_verdict [] c ts = hybrid_verdict [0] c ts"
    by (simp add: hybrid_verdict_def Let_def SPEAKER_SIMILARITY_THRESHOLD_def)
  have h3: "no_embeddings_warning verbose [] \<longleftrightarrow> verbose"
    by (simp add: no_embeddings_warning_def)
  show ?thesis using api h1 h2 h3 by blast
qed

theorem speaker_failure_degrades_witness:
  "verify_clip (example_providers ''c d'' [''v.mp4''] (Inl ''no audio stream'')) ''upload.mp4'' =
     Inr \<lparr>verified = False, verification_type = ''content_only'',
          matches = [\<lparr>match_video_path = ''download/v.mp4'', match_video_name = ''v.mp4'',
            start_time = 2, end_time = 7 / 2, similarity = 1, start_word_index = 2,
            end_word_index = 3, matched_text = ''c d'', clip_word_count = 2,
            match_duration = 3 / 2\<rparr>],
          best_match = Some \<lparr>match_video_path = ''download/v.mp4'', match_video_name = ''v.mp4'',
            start_time = 2, end_time = 7 / 2, similarity = 1, start_word_index = 2,
            end_word_index = 3, matched_text = ''c d'', clip_word_count = 2,
            match_duration = 3 / 2\<rparr>,
          speaker_verification =
            Some \<lparr>sv_verified = False, sv_similarity = None, sv_threshold = None,
                  sv_error = Some ''no audio stream'',
                  sv_message = ''Speaker verification failed''\<rparr>,
          clip_info_word_count = 2, clip_info_duration = 2, clip_info_text = ''c d'',
          text_threshold = TEXT_THRESHOLD, speaker_threshold = SPEAKER_THRESHOLD\<rparr>"
proof -
  let ?env = "example_providers ''c d'' [''v.mp4''] (Inl ''no audio stream'')"
  let ?clip = "transcription_of ''clip.mp4'' ''c d'' (timed_words [''c'', ''d''])"
  let ?bm = "\<lparr>match_video_path = ''download/v.mp4'', match_video_name = ''v.mp4'',
     start_time = 2, end_time = 7 / 2, similarity = 1, start_word_index = 2, end_word_index = 3,
     matched_text = ''c d'', clip_word_count = 2, match_duration = 3 / 2\<rparr>"
  have a: "transcribe_clip ?env ''upload.mp4'' = Inr ?clip" by code_simp
  have b: "search_all_videos TEXT_THRESHOLD ?clip
             (transcribe_videos ?env (get_available_videos ?env)) = Inr (?bm # [])"
    by code_simp
  have c: "verify_speaker ?env ''upload.mp4'' 0 (min 10 (end_time ?bm - start_time ?bm))
             (VIDEO_DIRECTORY @ ''/'' @ match_video_name ?bm) (start_time ?bm)
             (min 10 (end_time ?bm - start_time ?bm)) SPEAKER_THRESHOLD = Inl ''no audio stream''"
    by code_simp
  have d: "word_count ?clip = 2" "duration ?clip = 2" "full_text ?clip = ''c d''"
    by (simp_all add: transcription_of_def timed_words_def)
  from speaker_failure_degrades [of ?env "''upload.mp4''" ?clip ?bm "[]" "''no audio stream''",
        THEN conjunct1, THEN mp, OF conjI [OF a conjI [OF b c]]]
  show ?thesis unfolding d .
qed

text \<open>
  The claim as the specification states it fails in the hybrid verifier: without
  embeddings the result carries no mark of it. For a content match of high confidence it
  is the result of a speaker mismatch, for one of medium confidence it is a weak match.
\<close>

theorem hybrid_result_without_marker:
  "hybrid_verdict [] ''high'' 120 =
     \<lparr>hybrid_verified = False, hybrid_confidence = ''low'', speaker_match_similarity = 0,
      speaker_match_verified = False, speaker_match_threshold = 90 / 100,
      hybrid_explanation = Speaker_failed\<rparr>
   \<and> hybrid_verdict [0] ''high'' 120 = hybrid_verdict [] ''high'' 120
   \<and> hybrid_verdict [] ''medium'' 120 =
     \<lparr>hybrid_verified = False, hybrid_confidence = ''low'', speaker_match_similarity = 0,
      speaker_match_verified = False, speaker_match_threshold = 90 / 100,
      hybrid_explanation = Weak_match\<rparr>
   \<and> \<not> no_embeddings_warning False []"
  by (simp add: hybrid_verdict_def Let_def SPEAKER_SIMILARITY_THRESHOLD_def
        no_embeddings_warning_def)




end
